theory Spec2Isabelle
  imports Complex_Main "HOL-Library.AList" "HOL-Library.Multiset"
begin

section \<open>Text primitives\<close>

text \<open>
  JavaScript strings are modelled as \<^typ>\<open>string\<close>. The character classes below are the
  ASCII part of the classes the source's regular expressions use (\<open>\p{L}\<close>, \<open>\p{N}\<close>,
  \<open>\s\<close>, \<open>\w\<close>), and \<open>toLowerCase\<close> is the ASCII case mapping; the embedding is
  about ASCII text. Counters, identifiers, limits and budgets are modelled as \<^typ>\<open>int\<close>.
  The scores of the fuzzy matcher are doubles, modelled as the rationals they denote with
  every operation rounded (section on double arithmetic below); the scores of the
  document search are modelled as \<^typ>\<open>real\<close>, without rounding.
\<close>

definition upper_letters :: string where
  "upper_letters = ''ABCDEFGHIJKLMNOPQRSTUVWXYZ''"

definition lower_letters :: string where
  "lower_letters = ''abcdefghijklmnopqrstuvwxyz''"

definition digit_chars :: string where
  "digit_chars = ''0123456789''"

definition is_upper :: "char \<Rightarrow> bool" where
  "is_upper c = (c \<in> set upper_letters)"

definition is_lower :: "char \<Rightarrow> bool" where
  "is_lower c = (c \<in> set lower_letters)"

definition is_digit :: "char \<Rightarrow> bool" where
  "is_digit c = (c \<in> set digit_chars)"

definition is_alnum :: "char \<Rightarrow> bool" where
  "is_alnum c = (is_lower c \<or> is_upper c \<or> is_digit c)"

definition is_space :: "char \<Rightarrow> bool" where
  "is_space c = (c \<in> set [CHR '' '', CHR 0x09, CHR 0x0A, CHR 0x0B, CHR 0x0C, CHR 0x0D])"

definition lower_char :: "char \<Rightarrow> char" where
  "lower_char c = (case map_of (zip upper_letters lower_letters) c of Some d \<Rightarrow> d | None \<Rightarrow> c)"

definition toLowerCase :: "string \<Rightarrow> string" where
  "toLowerCase s = map lower_char s"

text \<open>\<open>s.trim()\<close>.\<close>

definition trim :: "string \<Rightarrow> string" where
  "trim s = rev (dropWhile is_space (rev (dropWhile is_space s)))"

text \<open>\<open>s.replace(/C+/g, " ")\<close> for a character class \<open>C\<close>: every maximal run of characters
  of the class becomes one space.\<close>

function squeeze :: "(char \<Rightarrow> bool) \<Rightarrow> string \<Rightarrow> string" where
  "squeeze p [] = []"
| "squeeze p (c # s) = (if p c then CHR '' '' # squeeze p (dropWhile p s) else c # squeeze p s)"
  by pat_completeness auto
termination
  by (relation "measure (\<lambda>(p, s). length s)") (auto simp: length_dropWhile_le less_Suc_eq_le)

text \<open>\<open>s.replace(/\\x/g, " ")\<close>: a literal backslash followed by the letter \<open>x\<close> becomes
  one space, scanning from the left.\<close>

fun unescape :: "char \<Rightarrow> string \<Rightarrow> string" where
  "unescape x (a # b # s) =
     (if a = CHR 0x5C \<and> b = x then CHR '' '' # unescape x s else a # unescape x (b # s))"
| "unescape x s = s"

text \<open>\<open>a.includes(b)\<close>.\<close>

fun str_includes :: "string \<Rightarrow> string \<Rightarrow> bool" where
  "str_includes [] b = (b = [])"
| "str_includes (c # s) b = (take (length b) (c # s) = b \<or> str_includes s b)"

text \<open>\<open>s.split(d)\<close> for a one-character separator: the empty string gives one empty piece.\<close>

fun split_at :: "char \<Rightarrow> string \<Rightarrow> string list" where
  "split_at d [] = [[]]"
| "split_at d (c # s) =
     (if c = d then [] # split_at d s
      else (case split_at d s of [] \<Rightarrow> [[c]] | w # ws \<Rightarrow> (c # w) # ws))"

text \<open>A JavaScript \<open>Set\<close> is a list without repetition in insertion order; \<open>set_add\<close> is
  \<open>Set.prototype.add\<close>, \<open>size\<close> is \<^const>\<open>length\<close> and \<open>has\<close> is membership.\<close>

definition set_add :: "'a list \<Rightarrow> 'a \<Rightarrow> 'a list" where
  "set_add s x = (if x \<in> set s then s else s @ [x])"

text \<open>\<open>xs.sort((a, b) => key(b) - key(a))\<close>: the stable sort by descending key.\<close>

definition sort_desc :: "('a \<Rightarrow> real) \<Rightarrow> 'a list \<Rightarrow> 'a list" where
  "sort_desc key xs = sort_key (\<lambda>x. - key x) xs"

section \<open>Double arithmetic\<close>

text \<open>
  A JavaScript number is an IEEE 754 binary64 value. A finite one is modelled as the
  rational it denotes, and the result of a literal, a division, a product or a sum is the
  exact result rounded to the nearest double, ties to the even significand (\<open>round64\<close>).
  Subnormal results are covered; overflow to \<open>Infinity\<close> is outside the model. Integers
  below \<open>2^53\<close>, comparisons and \<open>Math.max\<close> are exact.
\<close>

text \<open>The number of binary digits of a positive integer.\<close>

function bitlen :: "int \<Rightarrow> nat" where
  "bitlen n = (if n \<le> 0 then 0 else Suc (bitlen (n div 2)))"
  by pat_completeness auto
termination
  by (relation "measure nat") auto

declare bitlen.simps [simp del]

definition pow2 :: "int \<Rightarrow> rat" where
  "pow2 e = (if e \<ge> 0 then 2 ^ nat e else 1 / 2 ^ nat (- e))"

text \<open>The binary exponent of a positive rational \<open>p / q\<close>, that is the \<open>e\<close> with
  \<open>2^e \<le> p / q < 2^(e + 1)\<close>: the difference \<open>d\<close> of the digit counts of \<open>p\<close> and \<open>q\<close>
  satisfies \<open>2^(d - 1) < p / q < 2^(d + 1)\<close>.\<close>

definition ilog2 :: "rat \<Rightarrow> int" where
  "ilog2 a =
     (case quotient_of a of
        (p, q) \<Rightarrow>
          let d = int (bitlen p) - int (bitlen q)
          in if pow2 d \<le> a then d else d - 1)"

definition round_half_even :: "rat \<Rightarrow> int" where
  "round_half_even q =
     (let f = \<lfloor>q\<rfloor>;
          r = q - of_int f
      in if r < 1 / 2 then f
         else if r > 1 / 2 then f + 1
         else if even f then f else f + 1)"

text \<open>Rounding to the nearest double: the spacing of the doubles around \<open>x\<close> is
  \<open>2^(e - 52)\<close> for the binary exponent \<open>e\<close> of \<open>x\<close>, and is \<open>2^(-1074)\<close> below \<open>2^(-1022)\<close>.\<close>

definition round64 :: "rat \<Rightarrow> rat" where
  "round64 x =
     (if x = 0 then 0
      else let a = \<bar>x\<bar>;
               e = max (ilog2 a) (- 1022);
               ulp = pow2 (e - 52)
           in sgn x * of_int (round_half_even (a / ulp)) * ulp)"

definition fdiv :: "rat \<Rightarrow> rat \<Rightarrow> rat" where
  "fdiv a b = round64 (a / b)"

definition fmul :: "rat \<Rightarrow> rat \<Rightarrow> rat" where
  "fmul a b = round64 (a * b)"

definition fadd :: "rat \<Rightarrow> rat \<Rightarrow> rat" where
  "fadd a b = round64 (a + b)"

section \<open>Fuzzy matcher of the question lookup\<close>

record IndexedQuestion =
  qid :: int
  qtext :: string
  normalized :: string
  tokens :: "string list"
  imageUrls :: "string list"

text \<open>The replacement of the curly apostrophes U+2018 and U+2019 is the identity on ASCII
  text and has no counterpart here.\<close>

definition normalizeText :: "string \<Rightarrow> string" where
  "normalizeText input =
     trim (squeeze is_space (squeeze (\<lambda>c. \<not> is_alnum c)
       (toLowerCase (unescape CHR ''t'' (unescape CHR ''r'' (unescape CHR ''n'' input))))))"

definition toTokens :: "string \<Rightarrow> string list" where
  "toTokens n =
     foldl (\<lambda>out t. if t = [] then out else if length t \<le> 1 then out else set_add out t)
       [] (split_at CHR '' '' n)"

definition jaccard :: "string list \<Rightarrow> string list \<Rightarrow> rat" where
  "jaccard a b =
     (if length a = 0 \<or> length b = 0 then 0
      else let inter = int (length (filter (\<lambda>t. t \<in> set b) a));
               union = int (length a) + int (length b) - inter
           in if union > 0 then fdiv (of_int inter) (of_int union) else 0)"

definition substringScore :: "string \<Rightarrow> string \<Rightarrow> rat" where
  "substringScore a b =
     (if a = [] \<or> b = [] then 0
      else if a = b then 1
      else if length a < 4 \<or> length b < 4 then 0
      else if str_includes a b \<or> str_includes b a then round64 0.85
      else 0)"

definition scoreMatch :: "IndexedQuestion \<Rightarrow> IndexedQuestion \<Rightarrow> rat" where
  "scoreMatch query candidate =
     (if length (normalized query) = 0 \<or> length (normalized candidate) = 0 then 0
      else if normalized query = normalized candidate then 1
      else
        let longer = (if length (normalized query) \<ge> length (normalized candidate)
                      then normalized query else normalized candidate);
            shorter = (if longer = normalized query then normalized candidate
                       else normalized query)
        in if length shorter \<ge> 20 \<and> str_includes longer shorter then round64 0.95
           else
             let jac = jaccard (tokens query) (tokens candidate);
                 overlap =
                   (if min (length (tokens query)) (length (tokens candidate)) > 0
                    then fdiv (of_nat (length (filter (\<lambda>t. t \<in> set (tokens candidate)) (tokens query))))
                           (of_nat (min (length (tokens query)) (length (tokens candidate))))
                    else 0);
                 sub = substringScore (normalized query) (normalized candidate)
             in max (fadd (fmul jac (round64 0.3)) (fmul overlap (round64 0.7))) sub)"

text \<open>The entry \<open>fetchQuestionById\<close> builds from the text of a fetched question, and the
  query entry the lookup handler builds from the query text.\<close>

definition indexed :: "int \<Rightarrow> string \<Rightarrow> string list \<Rightarrow> IndexedQuestion" where
  "indexed i t urls =
     \<lparr>qid = i, qtext = t, normalized = normalizeText t,
      tokens = toTokens (normalizeText t), imageUrls = urls\<rparr>"

text \<open>The matching of the lookup handler (\<open>POST\<close>): every indexed entry is scored against
  the query, entries scoring below the double \<open>0.4\<close> are dropped, the rest is sorted by
  descending score (a stable sort) and the first one is kept.\<close>

definition lookupMatches :: "string \<Rightarrow> IndexedQuestion list \<Rightarrow> (IndexedQuestion \<times> rat) list" where
  "lookupMatches queryUsed entries =
     (let query = indexed (- 1) queryUsed [];
          scoredAll = sort_key (\<lambda>x. - snd x)
            (filter (\<lambda>x. snd x \<ge> round64 0.4) (map (\<lambda>q. (q, scoreMatch query q)) entries))
      in take 1 scoredAll)"

subsection \<open>More string operations, used by the document search\<close>

text \<open>\<open>s.split(/\s+/)\<close>: the pieces between maximal runs of white space.\<close>

definition split_ws :: "string \<Rightarrow> string list" where
  "split_ws s = split_at CHR '' '' (squeeze is_space s)"

text \<open>The maximal runs of characters outside a class, empty runs included: the pieces
  \<open>split\<close> yields when every character of the class separates.\<close>

fun split_where :: "(char \<Rightarrow> bool) \<Rightarrow> string \<Rightarrow> string list" where
  "split_where p [] = [[]]"
| "split_where p (c # s) =
     (if p c then [] # split_where p s
      else (case split_where p s of [] \<Rightarrow> [[c]] | w # ws \<Rightarrow> (c # w) # ws))"

text \<open>\<open>s.indexOf(t)\<close>, with -1 when \<open>t\<close> does not occur.\<close>

fun indexOf :: "string \<Rightarrow> string \<Rightarrow> int" where
  "indexOf [] t = (if t = [] then 0 else - 1)"
| "indexOf (c # s) t =
     (if take (length t) (c # s) = t then 0
      else (let r = indexOf s t in if r < 0 then - 1 else r + 1))"

text \<open>\<open>s.slice(a, b)\<close> for indices that are not negative.\<close>

definition slice :: "string \<Rightarrow> int \<Rightarrow> int \<Rightarrow> string" where
  "slice s a b = take (nat (b - a)) (drop (nat a) s)"

text \<open>\<open>[...new Set(items)]\<close>: the first occurrence of every element, in order.\<close>

definition uniq :: "'a list \<Rightarrow> 'a list" where
  "uniq xs = foldl set_add [] xs"

text \<open>Decimal digits: the value of a digit string (\<open>Number\<close> of a match of \<open>\d+\<close>) and the
  string of an integer (a number spliced into a template string).\<close>

definition digit_value :: "char \<Rightarrow> nat" where
  "digit_value c = (case map_of (zip digit_chars [0..<10]) c of Some d \<Rightarrow> d | None \<Rightarrow> 0)"

definition number_of_digits :: "string \<Rightarrow> nat" where
  "number_of_digits ds = foldl (\<lambda>n d. 10 * n + digit_value d) 0 ds"

function show_nat :: "nat \<Rightarrow> string" where
  "show_nat n = (if n < 10 then [digit_chars ! n] else show_nat (n div 10) @ [digit_chars ! (n mod 10)])"
  by pat_completeness auto
termination
  by (relation "measure id") auto

definition show_int :: "int \<Rightarrow> string" where
  "show_int i = (if i < 0 then CHR ''-'' # show_nat (nat (- i)) else show_nat (nat i))"

text \<open>A JavaScript \<open>Map\<close> is an association list with distinct keys in insertion order:
  \<open>set\<close> is \<^const>\<open>AList.update\<close>, \<open>get\<close> is \<^const>\<open>map_of\<close>, \<open>delete\<close> is
  \<^const>\<open>AList.delete\<close>, and \<open>new Map(entries)\<close> sets the entries one after the other.\<close>

definition new_Map :: "('k \<times> 'v) list \<Rightarrow> ('k \<times> 'v) list" where
  "new_Map entries = foldl (\<lambda>m (k, v). AList.update k v m) [] entries"

section \<open>Crawl state of the question lookup\<close>

record FsQuizIndexState =
  complete :: bool
  nextId :: int
  notFoundStreak :: nat
  items :: "IndexedQuestion list"

definition fresh_state :: FsQuizIndexState where
  "fresh_state = \<lparr>complete = False, nextId = 1, notFoundStreak = 0, items = []\<rparr>"

text \<open>\<open>getIndexState\<close> reads the process-wide \<open>globalThis.__fredquiz_fsquiz_index\<close>, here
  the argument (\<open>None\<close> for \<open>undefined\<close>); the state it returns is also what the global
  holds afterwards. The streak is a counter that starts at 0 and is only incremented or
  reset to 0, hence a \<^typ>\<open>nat\<close>. The \<open>typeof\<close> and \<open>Number.isFinite\<close> guards of the
  source concern values the types used here exclude.\<close>

definition getIndexState :: "FsQuizIndexState option \<Rightarrow> FsQuizIndexState" where
  "getIndexState g =
     (case g of
        None \<Rightarrow> fresh_state
      | Some existing \<Rightarrow>
          if complete existing \<and> length (items existing) = 0 then fresh_state
          else if nextId existing < 1 then existing\<lparr>nextId := 1\<rparr>
          else existing)"

subsection \<open>One fetch\<close>

text \<open>The question as \<open>pickQuestion\<close> hands it over (\<open>FsQuizQuestion\<close>): its optional text
  and its optional list of images, each with an optional path.\<close>

record FsQuizQuestion =
  q_text :: "string option"
  q_images :: "string option list option"

text \<open>What the upstream does with one request: \<open>fetch\<close> rejects (\<open>NoResponse\<close>), or it
  answers with a status and a body; reading the body as JSON may throw (\<open>Unreadable\<close>),
  otherwise \<open>pickQuestion\<close> yields a question or \<open>null\<close>.\<close>

datatype http_body = Unreadable | Picked "FsQuizQuestion option"

datatype http_reply = NoResponse | Response nat http_body

datatype crawl_error = FetchRejected | RequestFailed nat | BodyRejected

datatype fetched = NotFound | Found IndexedQuestion

definition image_urls :: "FsQuizQuestion option \<Rightarrow> string list" where
  "image_urls q =
     (let images = (case q of None \<Rightarrow> [] | Some qq \<Rightarrow> (case q_images qq of None \<Rightarrow> [] | Some is \<Rightarrow> is))
      in map (\<lambda>p. ''https://img.fs-quiz.eu/'' @ p)
           (take 6 (filter (\<lambda>p. p \<noteq> [])
              (map (\<lambda>img. dropWhile (\<lambda>c. c = CHR ''/'') (case img of None \<Rightarrow> [] | Some p \<Rightarrow> p))
                 images))))"

definition fetchQuestionById :: "http_reply \<Rightarrow> int \<Rightarrow> crawl_error + fetched" where
  "fetchQuestionById reply i =
     (case reply of
        NoResponse \<Rightarrow> Inl FetchRejected
      | Response status body \<Rightarrow>
          if status = 404 then Inr NotFound
          else if \<not> (200 \<le> status \<and> status \<le> 299) then Inl (RequestFailed status)
          else (case body of
                  Unreadable \<Rightarrow> Inl BodyRejected
                | Picked q \<Rightarrow>
                    Inr (Found (indexed i
                      (trim (case q of None \<Rightarrow> [] | Some qq \<Rightarrow> (case q_text qq of None \<Rightarrow> [] | Some t \<Rightarrow> t)))
                      (image_urls q)))))"

subsection \<open>One batch\<close>

text \<open>\<open>Promise.all\<close>: the list of all results, or the rejection of a fetch that failed.
  When several fetches fail the source sees the one that settles first; the model takes
  the one with the lowest identifier.\<close>

fun await_all :: "(crawl_error + 'a) list \<Rightarrow> crawl_error + 'a list" where
  "await_all [] = Inr []"
| "await_all (r # rs) =
     (case r of
        Inl e \<Rightarrow> Inl e
      | Inr v \<Rightarrow> (case await_all rs of Inl e \<Rightarrow> Inl e | Inr vs \<Rightarrow> Inr (v # vs)))"

definition maxConsecutiveNotFound :: nat where
  "maxConsecutiveNotFound = 4"

definition minIndexedBeforeStop :: int where
  "minIndexedBeforeStop = 200"

definition batchSize :: nat where
  "batchSize = 8"

definition batch_ids :: "int \<Rightarrow> int list" where
  "batch_ids startId = map (\<lambda>i. startId + int i) [0..<batchSize]"

text \<open>The inner \<open>for\<close> loop over the results of a batch; the second component counts the
  entries appended (\<open>newlyIndexed\<close>).\<close>

fun process_results :: "fetched list \<Rightarrow> FsQuizIndexState \<Rightarrow> nat \<Rightarrow> FsQuizIndexState \<times> nat" where
  "process_results [] st n = (st, n)"
| "process_results (NotFound # rs) st n =
     (let st1 = st\<lparr>notFoundStreak := notFoundStreak st + 1\<rparr>
      in if notFoundStreak st1 \<ge> maxConsecutiveNotFound
            \<and> int (length (items st1)) \<ge> minIndexedBeforeStop
         then (st1\<lparr>complete := True\<rparr>, n)
         else process_results rs st1 n)"
| "process_results (Found q # rs) st n =
     process_results rs (st\<lparr>notFoundStreak := 0, items := items st @ [q]\<rparr>) (n + 1)"

text \<open>One round of the \<open>while\<close> loop after the time check: the identifiers of the batch,
  the cursor advanced, all fetches issued and awaited, the results processed. The result
  is the list of identifiers fetched, the state left behind and either the error thrown
  or the number of entries appended.\<close>

definition run_batch ::
  "(int \<Rightarrow> http_reply) \<Rightarrow> FsQuizIndexState \<Rightarrow> int list \<times> FsQuizIndexState \<times> (crawl_error + nat)" where
  "run_batch up st =
     (let startId = nextId st;
          ids = batch_ids startId;
          st1 = st\<lparr>nextId := nextId st + int batchSize\<rparr>
      in case await_all (map (\<lambda>i. fetchQuestionById (up i) i) ids) of
           Inl e \<Rightarrow> (ids, st1, Inl e)
         | Inr results \<Rightarrow>
             (case process_results results st1 0 of (st2, k) \<Rightarrow> (ids, st2, Inr k)))"

subsection \<open>One call\<close>

text \<open>The surroundings of one call: the time budget, the readings of \<open>Date.now()\<close> in the
  order the call takes them (reading 0 is \<open>startedAt\<close>), and the reply of the upstream
  to each identifier during the n-th batch of the call.\<close>

record crawl_env =
  timeBudgetMs :: int
  clock :: "nat \<Rightarrow> int"
  upstream :: "nat \<Rightarrow> int \<Rightarrow> http_reply"

text \<open>What a call leaves behind: the shared state, the identifiers it fetched, and either
  the error it threw or \<open>newlyIndexed\<close>.\<close>

record crawl_run =
  final :: FsQuizIndexState
  probed :: "int list"
  outcome :: "crawl_error + nat"

text \<open>The \<open>while\<close> loop, with fuel: \<open>None\<close> when the fuel runs out before the loop ends.\<close>

fun crawl_loop ::
  "nat \<Rightarrow> crawl_env \<Rightarrow> nat \<Rightarrow> FsQuizIndexState \<Rightarrow> nat \<Rightarrow> int list \<Rightarrow> crawl_run option" where
  "crawl_loop 0 env n st newly ps = None"
| "crawl_loop (Suc fuel) env n st newly ps =
     (if complete st then Some \<lparr>final = st, probed = ps, outcome = Inr newly\<rparr>
      else if clock env (Suc n) - clock env 0 > timeBudgetMs env
      then Some \<lparr>final = st, probed = ps, outcome = Inr newly\<rparr>
      else (case run_batch (upstream env n) st of
              (ids, st', Inl e) \<Rightarrow> Some \<lparr>final = st', probed = ps @ ids, outcome = Inl e\<rparr>
            | (ids, st', Inr k) \<Rightarrow> crawl_loop fuel env (Suc n) st' (newly + k) (ps @ ids)))"

text \<open>The variables of the \<open>while\<close> loop at the head of its n-th round, when the loop
  gets there: the state, \<open>newlyIndexed\<close> and the identifiers fetched so far. Every
  earlier round found the state not complete and the budget not used up, and its batch
  did not throw.\<close>

fun loop_head ::
  "crawl_env \<Rightarrow> nat \<Rightarrow> FsQuizIndexState \<Rightarrow> (FsQuizIndexState \<times> nat \<times> int list) option" where
  "loop_head env 0 st0 = Some (st0, 0, [])"
| "loop_head env (Suc n) st0 =
     (case loop_head env n st0 of
        None \<Rightarrow> None
      | Some (st, newly, ps) \<Rightarrow>
          if complete st then None
          else if clock env (Suc n) - clock env 0 > timeBudgetMs env then None
          else (case run_batch (upstream env n) st of
                  (ids, st', Inl e) \<Rightarrow> None
                | (ids, st', Inr k) \<Rightarrow> Some (st', newly + k, ps @ ids)))"

definition ensureIndexedUntilEnd ::
  "nat \<Rightarrow> crawl_env \<Rightarrow> FsQuizIndexState option \<Rightarrow> crawl_run option" where
  "ensureIndexedUntilEnd fuel env g =
     (let state = getIndexState g
      in if complete state then Some \<lparr>final = state, probed = [], outcome = Inr 0\<rparr>
         else crawl_loop fuel env 0 state 0 [])"


section \<open>The document index\<close>

datatype DocKind = Pdf | TextDoc

record DriveMeta =
  drive_fileId :: string
  webViewLink :: "string option"

record FileMeta =
  file_id :: string
  file_fileName :: string
  file_kind :: DocKind
  file_ext :: string
  file_year :: "string option"
  file_bytes :: "nat option"
  drive :: "DriveMeta option"

text \<open>The field \<open>text\<close> of a chunk is \<open>chunk_text\<close> here.\<close>

record Chunk =
  chunkId :: string
  fileId :: string
  fileName :: string
  kind :: DocKind
  year :: "string option"
  page :: "int option"
  startLine :: "int option"
  endLine :: "int option"
  chunk_text :: string

record RetrievedChunk = Chunk +
  score :: real
  excerpt :: string
  externalUrl :: "string option"

text \<open>\<open>{ ...chunk, score, excerpt, externalUrl }\<close>.\<close>

definition retrieved_of :: "Chunk \<Rightarrow> real \<Rightarrow> string \<Rightarrow> string option \<Rightarrow> RetrievedChunk" where
  "retrieved_of c s e u =
     \<lparr>chunkId = chunkId c, fileId = fileId c, fileName = fileName c, kind = kind c,
      year = year c, page = page c, startLine = startLine c, endLine = endLine c,
      chunk_text = chunk_text c, score = s, excerpt = e, externalUrl = u\<rparr>"

text \<open>MiniSearch is a library outside the repository. A loaded index is represented by
  its search function with the options the source passes (\<open>combineWith: "OR"\<close> on top of
  the boosts, prefix and fuzzy matching fixed when loading): the hits for a query, each
  a chunk identifier and a score, in the order the library returns them. The serialised
  index inside the bundle stays uninterpreted text.\<close>

record SearchResult =
  sr_id :: string
  sr_score :: real

type_synonym MiniSearch = "string \<Rightarrow> SearchResult list"

record IndexBundle =
  generatedAt :: string
  files :: "FileMeta list"
  chunks :: "Chunk list"
  miniSearch :: string

record LoadedIndex =
  bundle_of :: IndexBundle
  mini :: MiniSearch
  chunksById :: "(string \<times> Chunk) list"
  driveByFileId :: "(string \<times> DriveMeta) list"
  indexPath :: string
  mtimeMs :: real

subsection \<open>Loading\<close>

text \<open>What a call into the file system does: it throws with code \<open>ENOENT\<close>, it throws
  with another code, or it returns.\<close>

datatype 'a io = Enoent | Errno string | Done 'a

text \<open>The surroundings of \<open>loadIndex\<close>: \<open>fs.statSync(p).mtimeMs\<close>, \<open>fs.readFile(p, "utf8")\<close>,
  \<open>JSON.parse\<close> read at the type \<open>IndexBundle\<close> (\<open>None\<close> when it throws its
  \<open>SyntaxError\<close>) and \<open>MiniSearch.loadJS\<close> with the options of the source (\<open>None\<close> when
  it throws).\<close>

record runtime =
  statSync :: "string \<Rightarrow> real io"
  readFile :: "string \<Rightarrow> string io"
  JSON_parse :: "string \<Rightarrow> IndexBundle option"
  loadJS :: "string \<Rightarrow> MiniSearch option"

datatype load_error =
    MissingIndexError string
  | FsError string
  | SyntaxError
  | LoadError

text \<open>The test on \<open>globalThis.__fredquiz_index\<close>: an index is cached for this path and
  this modification time.\<close>

definition cached :: "LoadedIndex option \<Rightarrow> string \<Rightarrow> real \<Rightarrow> bool" where
  "cached cache p m =
     (case cache of None \<Rightarrow> False | Some ix \<Rightarrow> indexPath ix = p \<and> mtimeMs ix = m)"

definition build_index :: "IndexBundle \<Rightarrow> MiniSearch \<Rightarrow> string \<Rightarrow> real \<Rightarrow> LoadedIndex" where
  "build_index b m p t =
     \<lparr>bundle_of = b, mini = m,
      chunksById = foldl (\<lambda>acc c. AList.update (chunkId c) c acc) [] (chunks b),
      driveByFileId =
        foldl (\<lambda>acc f. case drive f of None \<Rightarrow> acc | Some d \<Rightarrow> AList.update (file_id f) d acc)
          [] (files b),
      indexPath = p, mtimeMs = t\<rparr>"

text \<open>The map \<open>chunksById\<close> of an index files every chunk under its own identifier, and
  so does a cache that is empty or holds such an index.\<close>

definition consistent :: "LoadedIndex \<Rightarrow> bool" where
  "consistent ix = list_all (\<lambda>(k, c). chunkId c = k) (chunksById ix)"

definition cache_consistent :: "LoadedIndex option \<Rightarrow> bool" where
  "cache_consistent cache = (case cache of None \<Rightarrow> True | Some ix \<Rightarrow> consistent ix)"

text \<open>\<open>loadIndex\<close>, for the path \<open>dataPath()\<close> gives: the result and the cache afterwards.\<close>

definition loadIndex ::
  "runtime \<Rightarrow> string \<Rightarrow> LoadedIndex option \<Rightarrow> (load_error + LoadedIndex) \<times> LoadedIndex option" where
  "loadIndex rt p cache =
     (case statSync rt p of
        Enoent \<Rightarrow> (Inl (MissingIndexError p), cache)
      | Errno code \<Rightarrow> (Inl (FsError code), cache)
      | Done m \<Rightarrow>
          (case (if cached cache p m then cache else None) of
             Some ix \<Rightarrow> (Inr ix, cache)
           | None \<Rightarrow>
               (case readFile rt p of
                  Enoent \<Rightarrow> (Inl (MissingIndexError p), cache)
                | Errno code \<Rightarrow> (Inl (FsError code), cache)
                | Done bundleRaw \<Rightarrow>
                    (case JSON_parse rt bundleRaw of
                       None \<Rightarrow> (Inl SyntaxError, cache)
                     | Some b \<Rightarrow>
                         (case loadJS rt (miniSearch b) of
                            None \<Rightarrow> (Inl LoadError, cache)
                          | Some ms \<Rightarrow>
                              (Inr (build_index b ms p m), Some (build_index b ms p m)))))))"

subsection \<open>Terms, excerpts, headers\<close>

text \<open>The stop words of \<open>extractTerms\<close> that are ASCII; the five with letters outside
  ASCII cannot be equal to a token of ASCII text.\<close>

definition stop_words :: "string list" where
  "stop_words =
     [''och'', ''att'', ''det'', ''den'', ''som'', ''vad'', ''hur'', ''ska'', ''kan'', ''med'',
      ''till'', ''i'', ''av'', ''en'', ''ett'', ''the'', ''a'', ''an'', ''to'', ''of'', ''in'',
      ''on'', ''and'', ''or'', ''is'', ''are'', ''was'', ''were'', ''be'', ''been'', ''being'',
      ''for'', ''with'', ''from'', ''by'', ''as'', ''at'', ''it'', ''its'', ''this'', ''that'',
      ''these'', ''those'', ''what'', ''how'', ''can'', ''could'', ''should'', ''would'', ''may'',
      ''might'', ''shall'', ''must'']"

definition extractTerms :: "string \<Rightarrow> string list" where
  "extractTerms input =
     (let cleaned =
            filter (\<lambda>t. t \<noteq> [])
              (map trim
                (split_ws
                  (squeeze (\<lambda>c. \<not> (is_alnum c \<or> is_space c \<or> c = CHR ''_'' \<or> c = CHR ''-''))
                    (toLowerCase input))))
      in take 12 (uniq (filter (\<lambda>t. length t \<ge> 2 \<and> t \<notin> set stop_words) cleaned)))"

text \<open>The loop of \<open>makeExcerpt\<close> over the terms: the earliest position of a term and that
  term (\<open>bestIdx\<close>, \<open>bestTerm\<close>).\<close>

fun best_hit :: "string \<Rightarrow> string list \<Rightarrow> int \<times> string \<Rightarrow> int \<times> string" where
  "best_hit lower [] best = best"
| "best_hit lower (term # terms) (bestIdx, bestTerm) =
     (let idx = indexOf lower (toLowerCase term)
      in if idx \<noteq> - 1 \<and> (bestIdx = - 1 \<or> idx < bestIdx)
         then best_hit lower terms (idx, term)
         else best_hit lower terms (bestIdx, bestTerm))"

definition makeExcerpt :: "string \<Rightarrow> string list \<Rightarrow> int \<Rightarrow> string" where
  "makeExcerpt txt terms maxLen =
     (let hay = trim (squeeze is_space txt)
      in if hay = [] then []
         else
           (case best_hit (toLowerCase hay) terms (- 1, []) of
              (bestIdx, bestTerm) \<Rightarrow>
                if bestIdx = - 1
                then (if int (length hay) \<le> maxLen then hay else slice hay 0 maxLen @ ''...'')
                else
                  let pad = (maxLen - int (length bestTerm)) div 2;
                      start = max 0 (bestIdx - pad);
                      end' = min (int (length hay)) (bestIdx + int (length bestTerm) + pad);
                      prefix = (if start > 0 then ''...'' else []);
                      suffix = (if end' < int (length hay) then ''...'' else [])
                  in prefix @ slice hay start end' @ suffix))"

definition is_word :: "char \<Rightarrow> bool" where
  "is_word c = (is_alnum c \<or> c = CHR ''_'')"

definition header_keywords :: "string list" where
  "header_keywords =
     [''chapter'', ''section'', ''appendix'', ''article'', ''clause'', ''rule'', ''rules'',
      ''definition'', ''definitions'', ''scope'']"

text \<open>\<open>/^(p)\b/i.test(s)\<close> for a pattern \<open>p\<close> of lower-case letters and spaces ending in a
  letter: \<open>s\<close> starts with \<open>p\<close> up to case, and no word character follows.\<close>

definition starts_with_word :: "string \<Rightarrow> string \<Rightarrow> bool" where
  "starts_with_word p s =
     (take (length p) (toLowerCase s) = p
      \<and> (case drop (length p) s of [] \<Rightarrow> True | c # _ \<Rightarrow> \<not> is_word c))"

text \<open>\<open>isLikelyHeader\<close>. The second test, \<open>/\b(chapter|...|scope)\b/i\<close>, holds when a
  maximal run of word characters is one of the keywords up to case, since the keywords
  consist of word characters. In the fourth, \<open>/^[0-9IVX]+(\.|:)\s+\S+/\<close>, the first run is
  maximal because neither a dot nor a colon belongs to its class.\<close>

definition isLikelyHeader :: "string \<Rightarrow> bool" where
  "isLikelyHeader txt =
     (let trimmed = trim (squeeze is_space txt)
      in if trimmed = [] then False
         else if length trimmed > 200 then False
         else if starts_with_word ''table of contents'' trimmed
                 \<or> starts_with_word ''contents'' trimmed then True
         else if list_ex (\<lambda>w. toLowerCase w \<in> set header_keywords)
                   (split_where (\<lambda>c. \<not> is_word c) trimmed) then True
         else if (case trimmed of
                    [] \<Rightarrow> False
                  | c # r \<Rightarrow> (is_upper c \<or> is_digit c) \<and> length r \<ge> 6
                      \<and> list_all (\<lambda>d. is_upper d \<or> is_digit d \<or> d \<in> set '' ._-'') r)
                 \<and> length trimmed \<le> 120 then True
         else if (let numeral_class = (\<lambda>c. is_digit c \<or> c \<in> set ''IVX'')
                  in takeWhile numeral_class trimmed \<noteq> []
                     \<and> (case dropWhile numeral_class trimmed of
                          c # sp # r \<Rightarrow>
                            (c = CHR ''.'' \<or> c = CHR '':'') \<and> is_space sp
                            \<and> dropWhile is_space r \<noteq> []
                        | _ \<Rightarrow> False)) then True
         else
           let words = split_ws trimmed
           in if length words \<ge> 2
              then
                let titleCase =
                      length (filter (\<lambda>w. case w of a # b # _ \<Rightarrow> is_upper a \<and> is_lower b | _ \<Rightarrow> False)
                                words)
                in real titleCase / real (length words) > 0.7
              else False)"

text \<open>\<open>parseSegmentIndex\<close>: the number after the first \<open>:s\<close> that a digit follows, or 0.\<close>

fun parseSegmentIndex :: "string \<Rightarrow> int" where
  "parseSegmentIndex (a # b # c # s) =
     (if a = CHR '':'' \<and> b = CHR ''s'' \<and> is_digit c
      then int (number_of_digits (takeWhile is_digit (c # s)))
      else parseSegmentIndex (b # c # s))"
| "parseSegmentIndex s = 0"

definition chunkOrderKey :: "Chunk \<Rightarrow> int" where
  "chunkOrderKey chunk =
     (if kind chunk = Pdf
      then (case page chunk of None \<Rightarrow> 0 | Some p \<Rightarrow> p) * 1000 + parseSegmentIndex (chunkId chunk)
      else (case startLine chunk of None \<Rightarrow> 0 | Some l \<Rightarrow> l))"

definition buildExternalUrl ::
  "string \<Rightarrow> Chunk \<Rightarrow> (string \<times> DriveMeta) list \<Rightarrow> string option" where
  "buildExternalUrl fileMetaId chunk driveMap =
     (case map_of driveMap fileMetaId of
        None \<Rightarrow> None
      | Some d \<Rightarrow>
          if drive_fileId d = [] then None
          else (case page chunk of
                  None \<Rightarrow> Some (''https://drive.google.com/file/d/'' @ drive_fileId d @ ''/view'')
                | Some p \<Rightarrow>
                    if p = 0 then Some (''https://drive.google.com/file/d/'' @ drive_fileId d @ ''/view'')
                    else Some (''https://drive.google.com/file/d/'' @ drive_fileId d
                               @ ''/view#page='' @ show_int p)))"

subsection \<open>Search\<close>

record SearchParams =
  query :: string
  year_wanted :: "string option"
  limit :: "int option"
  extraTerms :: "string list option"
  pdfFileNameAllow :: "string list option"
  kinds :: "DocKind list option"

text \<open>\<open>addResults\<close>: the weighted scores of the hits are added up per chunk identifier in
  the map \<open>scoreByChunkId\<close>.\<close>

definition addResults ::
  "(string \<times> real) list \<Rightarrow> SearchResult list \<Rightarrow> real \<Rightarrow> (string \<times> real) list" where
  "addResults scoreByChunkId results weight =
     foldl (\<lambda>m r.
              let prev = (case map_of m (sr_id r) of None \<Rightarrow> 0 | Some v \<Rightarrow> v)
              in AList.update (sr_id r) (prev + sr_score r * weight) m)
       scoreByChunkId results"

text \<open>The keyword searches, one per term that is at least three characters long and not
  a number.\<close>

definition keyword_searches ::
  "MiniSearch \<Rightarrow> string list \<Rightarrow> (string \<times> real) list \<Rightarrow> (string \<times> real) list" where
  "keyword_searches ms terms scoreByChunkId =
     foldl (\<lambda>m t.
              let term = trim t
              in if length term < 3 then m
                 else if term \<noteq> [] \<and> list_all is_digit term then m
                 else addResults m (take 80 (ms term)) 0.55)
       scoreByChunkId terms"

text \<open>The loop that turns the ranked identifiers into chunks, with the filters on kind,
  file name and year.\<close>

definition truthy :: "string option \<Rightarrow> bool" where
  "truthy s = (case s of None \<Rightarrow> False | Some v \<Rightarrow> v \<noteq> [])"

definition resolve_hit ::
  "LoadedIndex \<Rightarrow> DocKind list option \<Rightarrow> string list option \<Rightarrow> string option \<Rightarrow> string list
     \<Rightarrow> string \<times> real \<Rightarrow> RetrievedChunk option" where
  "resolve_hit ix kindAllow nameAllow yr terms r =
     (case map_of (chunksById ix) (fst r) of
        None \<Rightarrow> None
      | Some chunk \<Rightarrow>
          if (case kindAllow of None \<Rightarrow> False | Some ks \<Rightarrow> kind chunk \<notin> set ks) then None
          else if kind chunk = Pdf
                  \<and> (case nameAllow of
                        None \<Rightarrow> False
                      | Some ns \<Rightarrow> toLowerCase (fileName chunk) \<notin> set ns) then None
          else if kind chunk = Pdf \<and> truthy yr \<and> truthy (year chunk) \<and> year chunk \<noteq> yr then None
          else if kind chunk = Pdf \<and> truthy yr \<and> \<not> truthy (year chunk) then None
          else
            let fileMeta = find (\<lambda>f. file_id f = fileId chunk) (files (bundle_of ix));
                externalUrl =
                  (case fileMeta of
                     None \<Rightarrow> None
                   | Some f \<Rightarrow> buildExternalUrl (file_id f) chunk (driveByFileId ix))
            in Some (retrieved_of chunk (snd r) (makeExcerpt (chunk_text chunk) terms 900)
                       externalUrl))"

definition perFileCap :: nat where
  "perFileCap = 4"

text \<open>The first selection loop: at most \<open>perFileCap\<close> chunks per file name, until \<open>limit\<close>
  chunks are picked. It yields \<open>picked\<close> and \<open>pickedIds\<close>.\<close>

fun pick_capped ::
  "RetrievedChunk list \<Rightarrow> int \<Rightarrow> RetrievedChunk list \<Rightarrow> (string \<times> nat) list \<Rightarrow> string list
     \<Rightarrow> RetrievedChunk list \<times> string list" where
  "pick_capped [] lmt picked perFile pickedIds = (picked, pickedIds)"
| "pick_capped (item # rest) lmt picked perFile pickedIds =
     (let count = (case map_of perFile (fileName item) of None \<Rightarrow> 0 | Some n \<Rightarrow> n)
      in if count \<ge> perFileCap then pick_capped rest lmt picked perFile pickedIds
         else if int (length (picked @ [item])) \<ge> lmt
         then (picked @ [item], set_add pickedIds (chunkId item))
         else pick_capped rest lmt (picked @ [item])
                (AList.update (fileName item) (count + 1) perFile)
                (set_add pickedIds (chunkId item)))"

text \<open>The second loop, entered when fewer than \<open>limit\<close> chunks are picked: the chunks not
  yet picked are appended in ranking order, whatever their file.\<close>

fun backfill ::
  "RetrievedChunk list \<Rightarrow> int \<Rightarrow> RetrievedChunk list \<Rightarrow> string list \<Rightarrow> RetrievedChunk list" where
  "backfill [] lmt picked pickedIds = picked"
| "backfill (item # rest) lmt picked pickedIds =
     (if chunkId item \<in> set pickedIds then backfill rest lmt picked pickedIds
      else if int (length (picked @ [item])) \<ge> lmt then picked @ [item]
      else backfill rest lmt (picked @ [item]) (set_add pickedIds (chunkId item)))"

definition diversify :: "RetrievedChunk list \<Rightarrow> int \<Rightarrow> RetrievedChunk list" where
  "diversify out lmt =
     (case pick_capped out lmt [] [] [] of
        (picked, pickedIds) \<Rightarrow>
          if int (length picked) < lmt then backfill out lmt picked pickedIds else picked)"

text \<open>The chunks that pass the filters, ranked: \<open>out\<close> after \<open>out.sort\<close>.\<close>

definition ranked_candidates :: "LoadedIndex \<Rightarrow> SearchParams \<Rightarrow> RetrievedChunk list" where
  "ranked_candidates ix params =
     (let q = trim (query params);
          yr = map_option trim (year_wanted params);
          terms = uniq ((case extraTerms params of None \<Rightarrow> [] | Some ts \<Rightarrow> ts) @ extractTerms q);
          kindAllow = kinds params;
          nameAllow =
            (case pdfFileNameAllow params of
               None \<Rightarrow> None
             | Some ns \<Rightarrow> if ns = [] then None else Some (map toLowerCase ns));
          scoreByChunkId =
            keyword_searches (mini ix) terms (addResults [] (take 250 (mini ix q)) 1);
          results = take 250 (sort_desc snd scoreByChunkId);
          out = List.map_filter (resolve_hit ix kindAllow nameAllow yr terms) results
      in sort_desc score out)"

text \<open>\<open>searchDocs\<close> on a loaded index, and \<open>searchDocs\<close> itself: the result or the error of
  \<open>loadIndex\<close>, and the cache afterwards.\<close>

definition limit_of :: "SearchParams \<Rightarrow> int" where
  "limit_of params = (case limit params of None \<Rightarrow> 12 | Some l \<Rightarrow> l)"

definition search_loaded :: "LoadedIndex \<Rightarrow> SearchParams \<Rightarrow> RetrievedChunk list" where
  "search_loaded ix params = diversify (ranked_candidates ix params) (limit_of params)"

definition searchDocs ::
  "runtime \<Rightarrow> string \<Rightarrow> LoadedIndex option \<Rightarrow> SearchParams
     \<Rightarrow> (load_error + RetrievedChunk list) \<times> LoadedIndex option" where
  "searchDocs rt p cache params =
     (case loadIndex rt p cache of
        (Inl e, cache') \<Rightarrow> (Inl e, cache')
      | (Inr ix, cache') \<Rightarrow> (Inr (search_loaded ix params), cache'))"

text \<open>The picks of the first selection loop of \<open>searchDocs\<close>.\<close>

definition capped_picks :: "LoadedIndex \<Rightarrow> SearchParams \<Rightarrow> RetrievedChunk list" where
  "capped_picks ix params =
     fst (pick_capped (ranked_candidates ix params) (limit_of params) [] [] [])"

text \<open>Vocabulary for the properties of a result list: it is in descending score order;
  the number of its chunks from one file name.\<close>

definition descending :: "RetrievedChunk list \<Rightarrow> bool" where
  "descending rs = sorted_wrt (\<lambda>a b. score b \<le> score a) rs"

definition per_file :: "string \<Rightarrow> RetrievedChunk list \<Rightarrow> nat" where
  "per_file f rs = length (filter (\<lambda>c. fileName c = f) rs)"

subsection \<open>Header context\<close>

record ExpandOptions =
  maxTotal :: "int option"
  maxPerHeader :: "int option"
  maxExtraTotal :: "int option"
  maxExtraChars :: "int option"

text \<open>The map \<open>byFileId\<close>: the chunks of each file in bundle order, then each list sorted
  by \<open>chunkOrderKey\<close>.\<close>

definition byFileId_of :: "IndexBundle \<Rightarrow> (string \<times> Chunk list) list" where
  "byFileId_of b =
     map (\<lambda>(k, cs). (k, sort_key chunkOrderKey cs))
       (foldl (\<lambda>m c. case map_of m (fileId c) of
                        Some cs \<Rightarrow> AList.update (fileId c) (cs @ [c]) m
                      | None \<Rightarrow> AList.update (fileId c) [c] m)
          [] (chunks b))"

definition byFileMeta_of :: "IndexBundle \<Rightarrow> (string \<times> FileMeta) list" where
  "byFileMeta_of b = new_Map (map (\<lambda>f. (file_id f, f)) (files b))"

text \<open>What the loops of \<open>expandHeaderContext\<close> update.\<close>

record expansion =
  existingIds :: "string list"
  pinnedIds :: "string list"
  extras :: "RetrievedChunk list"
  extraCount :: int

text \<open>The inner loop: the chunks after a header in its file. \<open>added\<close> and \<open>extraChars\<close>
  are its counters.\<close>

fun walk_after ::
  "LoadedIndex \<Rightarrow> int \<Rightarrow> int \<Rightarrow> int \<Rightarrow> RetrievedChunk \<Rightarrow> string list \<Rightarrow> Chunk list
     \<Rightarrow> int \<Rightarrow> int \<Rightarrow> expansion \<Rightarrow> expansion" where
  "walk_after ix perHeader extraTotal extraCharsMax base terms [] added extraChars st = st"
| "walk_after ix perHeader extraTotal extraCharsMax base terms (c # cs) added extraChars st =
     (if chunkId c \<in> set (existingIds st)
      then walk_after ix perHeader extraTotal extraCharsMax base terms cs added extraChars st
      else if trim (chunk_text c) = []
      then walk_after ix perHeader extraTotal extraCharsMax base terms cs added extraChars st
      else if added \<ge> perHeader \<or> extraCount st \<ge> extraTotal then st
      else
        let txt = trim (chunk_text c);
            extraChars' = extraChars + int (length txt);
            externalUrl =
              (case map_of (byFileMeta_of (bundle_of ix)) (fileId c) of
                 None \<Rightarrow> None
               | Some f \<Rightarrow> buildExternalUrl (file_id f) c (driveByFileId ix));
            st' = \<lparr>existingIds = set_add (existingIds st) (chunkId c),
                   pinnedIds = set_add (pinnedIds st) (chunkId c),
                   extras = extras st
                     @ [retrieved_of c (max 0.1 (score base * 0.7)) (makeExcerpt txt terms 900)
                          externalUrl],
                   extraCount = extraCount st + 1\<rparr>
        in if extraChars' \<ge> extraCharsMax then st'
           else if isLikelyHeader txt \<and> added + 1 > 0 then st'
           else walk_after ix perHeader extraTotal extraCharsMax base terms cs (added + 1)
                  extraChars' st')"

text \<open>\<open>list.findIndex\<close> followed by the loop from the next index on: the chunks after the
  first one with the identifier, or \<open>None\<close> when there is none (index -1).\<close>

fun after_chunk :: "string \<Rightarrow> Chunk list \<Rightarrow> Chunk list option" where
  "after_chunk i [] = None"
| "after_chunk i (c # cs) = (if chunkId c = i then Some cs else after_chunk i cs)"

text \<open>The outer loop over the retrieved chunks.\<close>

fun collect_extras ::
  "LoadedIndex \<Rightarrow> int \<Rightarrow> int \<Rightarrow> int \<Rightarrow> RetrievedChunk list \<Rightarrow> expansion \<Rightarrow> expansion" where
  "collect_extras ix perHeader extraTotal extraCharsMax [] st = st"
| "collect_extras ix perHeader extraTotal extraCharsMax (base # rest) st =
     (if \<not> isLikelyHeader (chunk_text base)
      then collect_extras ix perHeader extraTotal extraCharsMax rest st
      else if length (trim (chunk_text base)) > 260
      then collect_extras ix perHeader extraTotal extraCharsMax rest st
      else if extraCount st \<ge> extraTotal then st
      else
        let st1 = st\<lparr>pinnedIds := set_add (pinnedIds st) (chunkId base)\<rparr>
        in (case map_of (byFileId_of (bundle_of ix)) (fileId base) of
              None \<Rightarrow> collect_extras ix perHeader extraTotal extraCharsMax rest st1
            | Some cs \<Rightarrow>
                (case after_chunk (chunkId base) cs of
                   None \<Rightarrow> collect_extras ix perHeader extraTotal extraCharsMax rest st1
                 | Some following \<Rightarrow>
                     collect_extras ix perHeader extraTotal extraCharsMax rest
                       (walk_after ix perHeader extraTotal extraCharsMax base
                          (extractTerms (chunk_text base)) following 0 0 st1))))"

text \<open>The eviction loop over \<open>dropCandidates\<close>, on the map \<open>byId\<close>.\<close>

fun drop_loop ::
  "RetrievedChunk list \<Rightarrow> int \<Rightarrow> (string \<times> RetrievedChunk) list \<Rightarrow> (string \<times> RetrievedChunk) list" where
  "drop_loop [] toDrop byId = byId"
| "drop_loop (c # cs) toDrop byId =
     (if toDrop \<le> 0 then byId else drop_loop cs (toDrop - 1) (AList.delete (chunkId c) byId))"

definition perHeader_of :: "ExpandOptions \<Rightarrow> int" where
  "perHeader_of opts = (case maxPerHeader opts of None \<Rightarrow> 3 | Some v \<Rightarrow> v)"

definition extraTotal_of :: "ExpandOptions \<Rightarrow> int" where
  "extraTotal_of opts = (case maxExtraTotal opts of None \<Rightarrow> 8 | Some v \<Rightarrow> v)"

definition extraChars_of :: "ExpandOptions \<Rightarrow> int" where
  "extraChars_of opts = (case maxExtraChars opts of None \<Rightarrow> 5000 | Some v \<Rightarrow> v)"

definition expansion_of :: "LoadedIndex \<Rightarrow> ExpandOptions \<Rightarrow> RetrievedChunk list \<Rightarrow> expansion" where
  "expansion_of ix opts retrieved =
     collect_extras ix (perHeader_of opts) (extraTotal_of opts) (extraChars_of opts)
       retrieved
       \<lparr>existingIds = uniq (map chunkId retrieved), pinnedIds = [], extras = [], extraCount = 0\<rparr>"

text \<open>\<open>expandHeaderContext\<close> once the index is loaded, and \<open>expandHeaderContext\<close> itself,
  which returns an empty input before it loads anything.\<close>

definition total_of :: "ExpandOptions \<Rightarrow> int" where
  "total_of opts = (case maxTotal opts of None \<Rightarrow> 28 | Some v \<Rightarrow> v)"

definition expand_loaded ::
  "LoadedIndex \<Rightarrow> ExpandOptions \<Rightarrow> RetrievedChunk list \<Rightarrow> RetrievedChunk list" where
  "expand_loaded ix opts retrieved =
     (let budget = total_of opts;
          st = expansion_of ix opts retrieved
      in if extras st = [] then retrieved
         else
           let merged = retrieved @ extras st
           in if int (length merged) \<le> budget then merged
              else
                let byId = new_Map (map (\<lambda>m. (chunkId m, m)) merged);
                    dropCandidates =
                      sort_key score (filter (\<lambda>m. chunkId m \<notin> set (pinnedIds st)) merged)
                in map snd (drop_loop dropCandidates (int (length merged) - budget) byId))"

definition expandHeaderContext ::
  "runtime \<Rightarrow> string \<Rightarrow> LoadedIndex option \<Rightarrow> RetrievedChunk list \<Rightarrow> ExpandOptions
     \<Rightarrow> (load_error + RetrievedChunk list) \<times> LoadedIndex option" where
  "expandHeaderContext rt p cache retrieved opts =
     (if retrieved = [] then (Inr retrieved, cache)
      else (case loadIndex rt p cache of
              (Inl e, cache') \<Rightarrow> (Inl e, cache')
            | (Inr ix, cache') \<Rightarrow> (Inr (expand_loaded ix opts retrieved), cache')))"

text \<open>What the two loops of \<open>expandHeaderContext\<close> maintain, for the set \<open>R\<close> of the
  identifiers of the retrieved chunks: \<open>existingIds\<close> holds \<open>R\<close> and the identifiers of the
  extras, which are distinct and outside \<open>R\<close>; every extra is pinned, and only retrieved
  chunks and extras are.\<close>

definition expansion_inv :: "string set \<Rightarrow> expansion \<Rightarrow> bool" where
  "expansion_inv R st =
     (set (existingIds st) = R \<union> chunkId ` set (extras st)
      \<and> distinct (map chunkId (extras st))
      \<and> R \<inter> chunkId ` set (extras st) = {}
      \<and> chunkId ` set (extras st) \<subseteq> set (pinnedIds st)
      \<and> set (pinnedIds st) \<subseteq> R \<union> chunkId ` set (extras st)
      \<and> distinct (pinnedIds st))"

subsection \<open>Sample crawl states and upstreams\<close>

definition no_such_question :: "int \<Rightarrow> http_reply" where
  "no_such_question i = Response 404 Unreadable"

definition sample_question :: FsQuizQuestion where
  "sample_question = \<lparr>q_text = Some ''What is the penalty for a spin?'', q_images = None\<rparr>"

definition failing_third :: "int \<Rightarrow> http_reply" where
  "failing_third i = (if i = 3 then Response 500 Unreadable else Response 200 (Picked (Some sample_question)))"

definition indexed_200 :: FsQuizIndexState where
  "indexed_200 =
     \<lparr>complete = False, nextId = 201, notFoundStreak = 0,
      items = map (\<lambda>i. indexed i ''question'' []) [1..200]\<rparr>"

definition at_101 :: FsQuizIndexState where
  "at_101 = \<lparr>complete = False, nextId = 101, notFoundStreak = 0, items = []\<rparr>"

definition one_batch_env :: "(int \<Rightarrow> http_reply) \<Rightarrow> crawl_env" where
  "one_batch_env up = \<lparr>timeBudgetMs = 25000, clock = (\<lambda>k. 20000 * int k), upstream = (\<lambda>n. up)\<rparr>"

definition failing_env :: crawl_env where
  "failing_env = one_batch_env failing_third"

definition quiet_env :: crawl_env where
  "quiet_env = one_batch_env no_such_question"


text \<open>A state with one entry, and an upstream where question 3 is missing and the request
  for question 12 fails; with a reading of the clock every ten seconds, a call gets
  through one batch and fails in the second.\<close>

definition seeded_state :: FsQuizIndexState where
  "seeded_state =
     \<lparr>complete = False, nextId = 2, notFoundStreak = 0,
      items = [indexed 1 ''first question'' []]\<rparr>"

definition flaky_upstream :: "int \<Rightarrow> http_reply" where
  "flaky_upstream i =
     (if i = 12 then Response 500 Unreadable
      else if i = 3 then Response 404 Unreadable
      else Response 200 (Picked (Some sample_question)))"

definition flaky_env :: crawl_env where
  "flaky_env =
     \<lparr>timeBudgetMs = 25000, clock = (\<lambda>k. 10000 * int k), upstream = (\<lambda>n. flaky_upstream)\<rparr>"

definition after_first_batch :: FsQuizIndexState where
  "after_first_batch = fst (snd (run_batch flaky_upstream seeded_state))"

subsection \<open>A sample corpus\<close>

definition rules_chunk :: "nat \<Rightarrow> string \<Rightarrow> Chunk" where
  "rules_chunk n t =
     \<lparr>chunkId = ''fa:p1:s'' @ show_nat n, fileId = ''fa'', fileName = ''rules.pdf'', kind = Pdf,
      year = Some ''2025'', page = Some 1, startLine = None, endLine = None, chunk_text = t\<rparr>"

definition handbook_chunk :: Chunk where
  "handbook_chunk =
     \<lparr>chunkId = ''fb:p1:s1'', fileId = ''fb'', fileName = ''handbook.pdf'', kind = Pdf,
      year = Some ''2025'', page = Some 1, startLine = None, endLine = None,
      chunk_text = ''brake test procedure''\<rparr>"

definition sample_bundle :: IndexBundle where
  "sample_bundle =
     \<lparr>generatedAt = ''2025-01-01'',
      files =
        [\<lparr>file_id = ''fa'', file_fileName = ''rules.pdf'', file_kind = Pdf, file_ext = ''pdf'',
          file_year = Some ''2025'', file_bytes = None, drive = None\<rparr>,
         \<lparr>file_id = ''fb'', file_fileName = ''handbook.pdf'', file_kind = Pdf, file_ext = ''pdf'',
          file_year = Some ''2025'', file_bytes = None, drive = None\<rparr>],
      chunks =
        [rules_chunk 1 ''Scope'', rules_chunk 2 ''brake pedal'', rules_chunk 3 ''brake lines'',
         rules_chunk 4 ''brake light'', rules_chunk 5 ''brake fluid'', handbook_chunk],
      miniSearch = ''index''\<rparr>"

text \<open>A loaded index that answers every query with the same six hits.\<close>

definition sample_hits :: MiniSearch where
  "sample_hits q =
     [\<lparr>sr_id = ''fa:p1:s1'', sr_score = 10\<rparr>, \<lparr>sr_id = ''fa:p1:s2'', sr_score = 9\<rparr>,
      \<lparr>sr_id = ''fa:p1:s3'', sr_score = 8\<rparr>, \<lparr>sr_id = ''fa:p1:s4'', sr_score = 7\<rparr>,
      \<lparr>sr_id = ''fa:p1:s5'', sr_score = 6\<rparr>, \<lparr>sr_id = ''fb:p1:s1'', sr_score = 5\<rparr>]"

definition sample_path :: string where
  "sample_path = ''data/index/bundle.json''"

definition sample_rt :: runtime where
  "sample_rt =
     \<lparr>statSync = (\<lambda>p. if p = sample_path then Done 5 else Enoent),
      readFile = (\<lambda>p. if p = sample_path then Done ''bundle'' else Enoent),
      JSON_parse = (\<lambda>raw. if raw = ''bundle'' then Some sample_bundle else None),
      loadJS = (\<lambda>s. if s = ''index'' then Some sample_hits else None)\<rparr>"

definition sample_index :: LoadedIndex where
  "sample_index = build_index sample_bundle sample_hits sample_path 5"

definition sample_params :: "int \<Rightarrow> SearchParams" where
  "sample_params n =
     \<lparr>query = ''it'', year_wanted = None, limit = Some n, extraTerms = None,
      pdfFileNameAllow = None, kinds = None\<rparr>"

definition sample_options :: ExpandOptions where
  "sample_options =
     \<lparr>maxTotal = Some 2, maxPerHeader = None, maxExtraTotal = None, maxExtraChars = None\<rparr>"

text \<open>A runtime whose bundle file exists and cannot be parsed, and one without a bundle.\<close>

definition garbled_rt :: runtime where
  "garbled_rt =
     \<lparr>statSync = (\<lambda>p. Done 5), readFile = (\<lambda>p. Done ''{''),
      JSON_parse = (\<lambda>raw. None), loadJS = (\<lambda>s. None)\<rparr>"

definition no_bundle_rt :: runtime where
  "no_bundle_rt =
     \<lparr>statSync = (\<lambda>p. Enoent), readFile = (\<lambda>p. Enoent),
      JSON_parse = (\<lambda>raw. None), loadJS = (\<lambda>s. None)\<rparr>"

text \<open>The chunk identifiers and scores of a result list.\<close>

definition ranking :: "RetrievedChunk list \<Rightarrow> (string \<times> real) list" where
  "ranking rs = map (\<lambda>c. (chunkId c, score c)) rs"

definition sample_result :: "RetrievedChunk list" where
  "sample_result = search_loaded sample_index (sample_params 6)"

definition brake_pedal_hit :: RetrievedChunk where
  "brake_pedal_hit = retrieved_of (rules_chunk 2 ''brake pedal'') 9 ''brake pedal'' None"

definition scope_hit :: "RetrievedChunk list" where
  "scope_hit = search_loaded sample_index (sample_params 1)"

section \<open>Properties of the fuzzy matcher\<close>

text \<open>The rounding at some well-known doubles: \<open>0.1\<close> is \<open>0x1.999999999999ap-4\<close>, a tie
  goes to the even significand, small integers and \<open>1/2\<close> are exact.\<close>

lemma round64_tenth: "round64 (1 / 10) = 3602879701896397 / 36028797018963968"
  by code_simp

lemma round64_ties: "round64 (2 ^ 53 + 1) = 2 ^ 53 \<and> round64 (2 ^ 53 + 3) = 2 ^ 53 + 4"
  by code_simp

lemma round64_small_integers: "round64 4 = 4 \<and> round64 (- 7) = - 7 \<and> round64 (1 / 2) = 1 / 2"
  by code_simp

lemma normalizeText_spin_query:
  "normalizeText ''describe the penalty for a spin'' = ''describe the penalty for a spin''"
  by code_simp

lemma normalizeText_spin_candidate:
  "normalizeText ''what is the penalty for a spin during dynamic events''
     = ''what is the penalty for a spin during dynamic events''"
  by code_simp

lemma toTokens_spin_query:
  "toTokens ''describe the penalty for a spin''
     = [''describe'', ''the'', ''penalty'', ''for'', ''spin'']"
  by code_simp

lemma toTokens_spin_candidate:
  "toTokens ''what is the penalty for a spin during dynamic events''
     = [''what'', ''is'', ''the'', ''penalty'', ''for'', ''spin'', ''during'', ''dynamic'',
        ''events'']"
  by code_simp

text \<open>The blend for a Jaccard index of 4/10 and an overlap coefficient of 4/5, step by
  step in double arithmetic; over the reals it is 0.68.\<close>

lemma spin_blend:
  "fdiv 4 10 = 3602879701896397 / 9007199254740992
   \<and> fdiv 4 5 = 3602879701896397 / 4503599627370496
   \<and> fmul (fdiv 4 10) (round64 0.3) = 1080863910568919 / 9007199254740992
   \<and> fmul (fdiv 4 5) (round64 0.7) = 5044031582654955 / 9007199254740992
   \<and> fadd (fmul (fdiv 4 10) (round64 0.3)) (fmul (fdiv 4 5) (round64 0.7))
       = 3062447746611937 / 4503599627370496"
  by code_simp

lemma spin_score:
  "scoreMatch (indexed (- 1) ''describe the penalty for a spin'' [])
     (indexed 7 ''what is the penalty for a spin during dynamic events'' [])
     = 3062447746611937 / 4503599627370496"
  by code_simp

lemma threshold_double: "round64 0.4 = 3602879701896397 / 9007199254740992"
  by code_simp

lemma threshold_double_normal: "round64 (2 / 5) = 3602879701896397 / 9007199254740992"
  using threshold_double by simp

lemma spin_lookup:
  "lookupMatches ''describe the penalty for a spin''
       [indexed 7 ''what is the penalty for a spin during dynamic events'' []]
     = [(indexed 7 ''what is the penalty for a spin during dynamic events'' [],
         3062447746611937 / 4503599627370496)]"
  by (simp add: lookupMatches_def spin_score threshold_double_normal)

text \<open>A score that is 0.4 over the reals and falls below the threshold in doubles: one of
  two query tokens among five candidate tokens gives a Jaccard index of 1/6 and an
  overlap coefficient of 1/2, and the entry is dropped.\<close>

lemma score_just_below_threshold:
  "scoreMatch (indexed (- 1) ''aa bb'' []) (indexed 1 ''aa cc dd ee ff'' [])
     = 7205759403792793 / 18014398509481984"
  by code_simp

lemma lookup_just_below_threshold:
  "lookupMatches ''aa bb'' [indexed 1 ''aa cc dd ee ff'' []] = []"
  by (simp add: lookupMatches_def score_just_below_threshold threshold_double_normal)

text \<open>
  C5, as stated, fails: the query "describe the penalty for a spin" is not contained in
  the candidate "what is the penalty for a spin during dynamic events" (the candidate has
  no word "describe"), so neither substring rule applies, and the blend of the Jaccard
  index 4/10 and the overlap coefficient 4/5 is below 0.85.
\<close>

theorem spin_score_counterexample:
  "\<not> 0.85 \<le> scoreMatch (indexed (- 1) ''describe the penalty for a spin'' [])
       (indexed 7 ''what is the penalty for a spin during dynamic events'' [])"
  by (simp add: spin_score)

text \<open>
  C5, amended: for the query "describe the penalty for a spin" and the single candidate
  "what is the penalty for a spin during dynamic events" the score is below 0.85 and not
  below 0.4: it is the blend 0.3 * 4/10 + 0.7 * 4/5 computed in doubles, the double
  3062447746611937 / 2^52 that prints as 0.6799999999999999. It is not below the
  threshold of the lookup, the double 0.4, and the lookup returns the candidate with
  this score.
\<close>

theorem spin_score_amended:
  "scoreMatch (indexed (- 1) ''describe the penalty for a spin'' [])
     (indexed 7 ''what is the penalty for a spin during dynamic events'' []) < 0.85
   \<and> 0.4 \<le> scoreMatch (indexed (- 1) ''describe the penalty for a spin'' [])
       (indexed 7 ''what is the penalty for a spin during dynamic events'' [])
   \<and> round64 0.4 \<le> scoreMatch (indexed (- 1) ''describe the penalty for a spin'' [])
       (indexed 7 ''what is the penalty for a spin during dynamic events'' [])
   \<and> scoreMatch (indexed (- 1) ''describe the penalty for a spin'' [])
       (indexed 7 ''what is the penalty for a spin during dynamic events'' [])
     = 3062447746611937 / 2 ^ 52
   \<and> lookupMatches ''describe the penalty for a spin''
       [indexed 7 ''what is the penalty for a spin during dynamic events'' []]
     = [(indexed 7 ''what is the penalty for a spin during dynamic events'' [],
         3062447746611937 / 2 ^ 52)]"
  unfolding spin_score spin_lookup threshold_double by simp

section \<open>Properties of the crawl\<close>

lemma batch_ids_unfold:
  "batch_ids s = [s, s + 1, s + 2, s + 3, s + 4, s + 5, s + 6, s + 7]"
  by (simp add: batch_ids_def batchSize_def upt_rec)

lemma batch_ids_ge: "i \<in> set (batch_ids s) \<Longrightarrow> s \<le> i"
  by (auto simp: batch_ids_def)

lemma batch_ids_less: "i \<in> set (batch_ids s) \<Longrightarrow> i < s + 8"
  by (auto simp: batch_ids_def batchSize_def)

lemma process_results_nextId:
  "nextId (fst (process_results rs st n)) = nextId st"
  by (induction rs st n rule: process_results.induct) (simp_all add: Let_def)

lemma process_results_complete:
  "complete st \<Longrightarrow> complete (fst (process_results rs st n))"
  by (induction rs st n rule: process_results.induct) (simp_all add: Let_def)

lemma process_results_items:
  "\<exists>ys. items (fst (process_results rs st n)) = items st @ ys"
  by (induction rs st n rule: process_results.induct) (auto simp: Let_def)

lemma process_results_sound:
  "(complete st \<longrightarrow> items st \<noteq> []) \<Longrightarrow>
   complete (fst (process_results rs st n)) \<longrightarrow> items (fst (process_results rs st n)) \<noteq> []"
  by (induction rs st n rule: process_results.induct)
     (auto simp: Let_def minIndexedBeforeStop_def)

text \<open>The two ways a batch ends.\<close>

lemma run_batch_throws:
  "await_all (map (\<lambda>i. fetchQuestionById (up i) i) (batch_ids (nextId st))) = Inl e \<Longrightarrow>
   run_batch up st = (batch_ids (nextId st), st\<lparr>nextId := nextId st + 8\<rparr>, Inl e)"
  by (simp add: run_batch_def Let_def batchSize_def)

lemma run_batch_returns:
  "await_all (map (\<lambda>i. fetchQuestionById (up i) i) (batch_ids (nextId st))) = Inr rs \<Longrightarrow>
   run_batch up st =
     (batch_ids (nextId st), fst (process_results rs (st\<lparr>nextId := nextId st + 8\<rparr>) 0),
      Inr (snd (process_results rs (st\<lparr>nextId := nextId st + 8\<rparr>) 0)))"
  by (simp add: run_batch_def Let_def batchSize_def split: prod.splits)

lemma run_batch_probed: "fst (run_batch up st) = batch_ids (nextId st)"
  by (cases "await_all (map (\<lambda>i. fetchQuestionById (up i) i) (batch_ids (nextId st)))")
     (simp_all add: run_batch_throws run_batch_returns)

lemma run_batch_nextId: "nextId (fst (snd (run_batch up st))) = nextId st + 8"
  by (cases "await_all (map (\<lambda>i. fetchQuestionById (up i) i) (batch_ids (nextId st)))")
     (simp_all add: run_batch_throws run_batch_returns process_results_nextId)

lemma run_batch_complete: "complete st \<Longrightarrow> complete (fst (snd (run_batch up st)))"
  by (cases "await_all (map (\<lambda>i. fetchQuestionById (up i) i) (batch_ids (nextId st)))")
     (simp_all add: run_batch_throws run_batch_returns process_results_complete)

lemma run_batch_items: "\<exists>ys. items (fst (snd (run_batch up st))) = items st @ ys"
proof (cases "await_all (map (\<lambda>i. fetchQuestionById (up i) i) (batch_ids (nextId st)))")
  case (Inl e)
  then show ?thesis by (simp add: run_batch_throws)
next
  case (Inr rs)
  then show ?thesis
    using process_results_items [of rs "st\<lparr>nextId := nextId st + 8\<rparr>" 0]
    by (simp add: run_batch_returns)
qed

lemma run_batch_sound:
  assumes "complete st \<longrightarrow> items st \<noteq> []"
  shows "complete (fst (snd (run_batch up st))) \<longrightarrow> items (fst (snd (run_batch up st))) \<noteq> []"
proof (cases "await_all (map (\<lambda>i. fetchQuestionById (up i) i) (batch_ids (nextId st)))")
  case (Inl e)
  then show ?thesis using assms by (simp add: run_batch_throws)
next
  case (Inr rs)
  then show ?thesis
    using assms process_results_sound [of "st\<lparr>nextId := nextId st + 8\<rparr>" rs 0]
    by (simp add: run_batch_returns)
qed

lemma await_all_Inl_mem:
  "await_all rs = Inl e \<Longrightarrow> Inl e \<in> set rs"
  by (induction rs) (auto split: sum.splits)

lemma await_all_fails:
  "Inl e \<in> set rs \<Longrightarrow> \<exists>e'. await_all rs = Inl e'"
  by (induction rs) (auto split: sum.splits)

lemma await_all_Inr:
  "await_all rs = Inr vs \<Longrightarrow> rs = map Inr vs"
  by (induction rs arbitrary: vs) (auto split: sum.splits)

lemma await_all_map_Inr:
  "await_all (map Inr vs) = Inr vs"
  by (induction vs) auto

text \<open>The loop.\<close>

lemma crawl_loop_step:
  assumes "\<not> complete st" and "\<not> clock env (Suc n) - clock env 0 > timeBudgetMs env"
  shows "crawl_loop (Suc fuel) env n st newly ps =
     (case snd (snd (run_batch (upstream env n) st)) of
        Inl e \<Rightarrow> Some \<lparr>final = fst (snd (run_batch (upstream env n) st)),
                        probed = ps @ batch_ids (nextId st), outcome = Inl e\<rparr>
      | Inr k \<Rightarrow> crawl_loop fuel env (Suc n) (fst (snd (run_batch (upstream env n) st)))
                  (newly + k) (ps @ batch_ids (nextId st)))"
  using assms run_batch_probed [of "upstream env n" st]
  by (cases "run_batch (upstream env n) st") (auto split: sum.splits)

lemma crawl_loop_stop:
  assumes "complete st \<or> clock env (Suc n) - clock env 0 > timeBudgetMs env"
  shows "crawl_loop (Suc fuel) env n st newly ps =
     Some \<lparr>final = st, probed = ps, outcome = Inr newly\<rparr>"
  using assms by auto

lemma crawl_loop_nextId:
  "crawl_loop fuel env n st newly ps = Some r \<Longrightarrow> nextId st \<le> nextId (final r)"
proof (induction fuel arbitrary: n st newly ps)
  case 0
  then show ?case by simp
next
  case (Suc fuel)
  show ?case
  proof (cases "complete st \<or> clock env (Suc n) - clock env 0 > timeBudgetMs env")
    case True
    with Suc.prems show ?thesis by (simp add: crawl_loop_stop del: crawl_loop.simps) auto
  next
    case False
    then have step: "\<not> complete st" "\<not> clock env (Suc n) - clock env 0 > timeBudgetMs env"
      by auto
    show ?thesis
    proof (cases "snd (snd (run_batch (upstream env n) st))")
      case (Inl e)
      with Suc.prems show ?thesis
        by (simp add: crawl_loop_step [OF step] del: crawl_loop.simps)
           (auto simp: run_batch_nextId)
    next
      case (Inr k)
      with Suc.prems have "nextId (fst (snd (run_batch (upstream env n) st))) \<le> nextId (final r)"
        by (simp add: crawl_loop_step [OF step] del: crawl_loop.simps) (rule Suc.IH)
      then show ?thesis by (simp add: run_batch_nextId)
    qed
  qed
qed

lemma crawl_loop_complete:
  "crawl_loop fuel env n st newly ps = Some r \<Longrightarrow> complete st \<Longrightarrow> complete (final r)"
  by (cases fuel) auto

lemma crawl_loop_items:
  "crawl_loop fuel env n st newly ps = Some r \<Longrightarrow> \<exists>ys. items (final r) = items st @ ys"
proof (induction fuel arbitrary: n st newly ps)
  case 0
  then show ?case by simp
next
  case (Suc fuel)
  show ?case
  proof (cases "complete st \<or> clock env (Suc n) - clock env 0 > timeBudgetMs env")
    case True
    with Suc.prems show ?thesis by (simp add: crawl_loop_stop del: crawl_loop.simps) auto
  next
    case False
    then have step: "\<not> complete st" "\<not> clock env (Suc n) - clock env 0 > timeBudgetMs env"
      by auto
    obtain ys where ys: "items (fst (snd (run_batch (upstream env n) st))) = items st @ ys"
      using run_batch_items by blast
    show ?thesis
    proof (cases "snd (snd (run_batch (upstream env n) st))")
      case (Inl e)
      with Suc.prems ys show ?thesis
        by (simp add: crawl_loop_step [OF step] del: crawl_loop.simps) auto
    next
      case (Inr k)
      with Suc.prems
      have "\<exists>zs. items (final r) = items (fst (snd (run_batch (upstream env n) st))) @ zs"
        by (simp add: crawl_loop_step [OF step] del: crawl_loop.simps) (rule Suc.IH)
      then show ?thesis using ys by auto
    qed
  qed
qed

lemma crawl_loop_sound:
  "crawl_loop fuel env n st newly ps = Some r \<Longrightarrow> complete st \<longrightarrow> items st \<noteq> [] \<Longrightarrow>
   complete (final r) \<longrightarrow> items (final r) \<noteq> []"
proof (induction fuel arbitrary: n st newly ps)
  case 0
  then show ?case by simp
next
  case (Suc fuel)
  show ?case
  proof (cases "complete st \<or> clock env (Suc n) - clock env 0 > timeBudgetMs env")
    case True
    with Suc.prems show ?thesis by (simp add: crawl_loop_stop del: crawl_loop.simps) auto
  next
    case False
    then have step: "\<not> complete st" "\<not> clock env (Suc n) - clock env 0 > timeBudgetMs env"
      by auto
    note so = run_batch_sound [OF Suc.prems(2), of "upstream env n"]
    show ?thesis
    proof (cases "snd (snd (run_batch (upstream env n) st))")
      case (Inl e)
      with Suc.prems(1) so show ?thesis
        by (simp add: crawl_loop_step [OF step] del: crawl_loop.simps) auto
    next
      case (Inr k)
      with Suc.prems(1)
      have "crawl_loop fuel env (Suc n) (fst (snd (run_batch (upstream env n) st)))
                  (newly + k) (ps @ batch_ids (nextId st)) = Some r"
        by (simp add: crawl_loop_step [OF step] del: crawl_loop.simps)
      from Suc.IH [OF this so] show ?thesis .
    qed
  qed
qed

lemma crawl_loop_probed:
  "crawl_loop fuel env n st newly ps = Some r \<Longrightarrow>
   \<exists>qs. probed r = ps @ qs \<and> (\<forall>i \<in> set qs. nextId st \<le> i)"
proof (induction fuel arbitrary: n st newly ps)
  case 0
  then show ?case by simp
next
  case (Suc fuel)
  show ?case
  proof (cases "complete st \<or> clock env (Suc n) - clock env 0 > timeBudgetMs env")
    case True
    with Suc.prems show ?thesis by (simp add: crawl_loop_stop del: crawl_loop.simps) auto
  next
    case False
    then have step: "\<not> complete st" "\<not> clock env (Suc n) - clock env 0 > timeBudgetMs env"
      by auto
    show ?thesis
    proof (cases "snd (snd (run_batch (upstream env n) st))")
      case (Inl e)
      with Suc.prems show ?thesis
        by (simp add: crawl_loop_step [OF step] del: crawl_loop.simps)
           (auto dest: batch_ids_ge)
    next
      case (Inr k)
      with Suc.prems
      have "crawl_loop fuel env (Suc n) (fst (snd (run_batch (upstream env n) st)))
                  (newly + k) (ps @ batch_ids (nextId st)) = Some r"
        by (simp add: crawl_loop_step [OF step] del: crawl_loop.simps)
      from Suc.IH [OF this] obtain qs where
        qs: "probed r = (ps @ batch_ids (nextId st)) @ qs"
          "\<forall>i \<in> set qs. nextId (fst (snd (run_batch (upstream env n) st))) \<le> i"
        by blast
      have "\<forall>i \<in> set (batch_ids (nextId st) @ qs). nextId st \<le> i"
        using qs(2) by (auto simp: run_batch_nextId dest: batch_ids_ge)
      with qs(1) show ?thesis by (intro exI [of _ "batch_ids (nextId st) @ qs"]) simp
    qed
  qed
qed

lemma crawl_loop_returns:
  "clock env (Suc (n + k)) - clock env 0 > timeBudgetMs env \<Longrightarrow>
   \<exists>r. crawl_loop (Suc (k + extra)) env n st newly ps = Some r"
proof (induction k arbitrary: n st newly ps)
  case 0
  then show ?case by simp
next
  case (Suc k)
  obtain ids st' res where rb: "run_batch (upstream env n) st = (ids, st', res)"
    by (cases "run_batch (upstream env n) st") auto
  from Suc.prems have "clock env (Suc (Suc n + k)) - clock env 0 > timeBudgetMs env" by simp
  from Suc.IH [OF this] show ?case using rb
    by (cases res) auto
qed

lemma getIndexState_facts:
  "\<not> (complete s \<and> items s = []) \<Longrightarrow>
   nextId s \<le> nextId (getIndexState (Some s))
   \<and> complete (getIndexState (Some s)) = complete s
   \<and> items (getIndexState (Some s)) = items s"
  by (auto simp: getIndexState_def)

lemma ensureIndexed_facts:
  assumes "ensureIndexedUntilEnd fuel env (Some s) = Some r" and "\<not> (complete s \<and> items s = [])"
  shows "nextId s \<le> nextId (final r)"
    and "complete s \<longrightarrow> complete (final r)"
    and "\<exists>ys. items (final r) = items s @ ys"
    and "\<forall>i \<in> set (probed r). nextId s \<le> i"
    and "\<not> (complete (final r) \<and> items (final r) = [])"
proof -
  let ?g = "getIndexState (Some s)"
  note g = getIndexState_facts [OF assms(2)]
  have "nextId s \<le> nextId (final r) \<and> (complete s \<longrightarrow> complete (final r))
    \<and> (\<exists>ys. items (final r) = items s @ ys) \<and> (\<forall>i \<in> set (probed r). nextId s \<le> i)
    \<and> \<not> (complete (final r) \<and> items (final r) = [])"
  proof (cases "complete ?g")
    case True
    with assms(1) have "r = \<lparr>final = ?g, probed = [], outcome = Inr 0\<rparr>"
      by (simp add: ensureIndexedUntilEnd_def Let_def)
    then show ?thesis using g True assms(2) by simp
  next
    case False
    with assms(1) have loop: "crawl_loop fuel env 0 ?g 0 [] = Some r"
      by (simp add: ensureIndexedUntilEnd_def Let_def)
    have 1: "nextId s \<le> nextId (final r)"
      using crawl_loop_nextId [OF loop] g by simp
    have 2: "complete s \<longrightarrow> complete (final r)"
      using False g by simp
    have 3: "\<exists>ys. items (final r) = items s @ ys"
      using crawl_loop_items [OF loop] g by simp
    have 4: "\<forall>i \<in> set (probed r). nextId s \<le> i"
      using crawl_loop_probed [OF loop] g by fastforce
    have 5: "\<not> (complete (final r) \<and> items (final r) = [])"
      using crawl_loop_sound [OF loop] False by simp
    from 1 2 3 4 5 show ?thesis by blast
  qed
  then show "nextId s \<le> nextId (final r)"
    and "complete s \<longrightarrow> complete (final r)"
    and "\<exists>ys. items (final r) = items s @ ys"
    and "\<forall>i \<in> set (probed r). nextId s \<le> i"
    and "\<not> (complete (final r) \<and> items (final r) = [])" by blast+
qed


lemma process_results_stop:
  assumes "minIndexedBeforeStop \<le> int (length (items st))"
  shows "process_results (pre @ [NotFound, NotFound, NotFound, NotFound] @ rest) st n
           = process_results (pre @ [NotFound, NotFound, NotFound, NotFound]) st n
         \<and> complete (fst (process_results (pre @ [NotFound, NotFound, NotFound, NotFound]) st n))"
  using assms
proof (induction pre arbitrary: st n)
  case Nil
  then show ?case by (simp add: Let_def maxConsecutiveNotFound_def)
next
  case (Cons a pre)
  show ?case
  proof (cases a)
    case NotFound
    then show ?thesis using Cons.IH [of "st\<lparr>notFoundStreak := notFoundStreak st + 1\<rparr>" n] Cons.prems
      by (simp add: Let_def)
  next
    case (Found q)
    then show ?thesis
      using Cons.IH [of "st\<lparr>notFoundStreak := 0, items := items st @ [q]\<rparr>" "n + 1"] Cons.prems
      by simp
  qed
qed

text \<open>
  C3, amended: in a crawl state with at least 200 entries indexed, when no fetch of a
  batch fails and its results hold four consecutive "not found" responses, completion
  has latched once the fourth of them is processed, and the results after it are not
  processed: the batch leaves the state reached after the fourth response. All eight
  identifiers of the batch have been fetched all the same (first component).
\<close>

theorem crawl_stop_amended:
  assumes "minIndexedBeforeStop \<le> int (length (items st))"
    and "map (\<lambda>i. fetchQuestionById (up i) i) (batch_ids (nextId st))
           = map Inr (pre @ [NotFound, NotFound, NotFound, NotFound] @ rest)"
  shows "run_batch up st =
           (batch_ids (nextId st),
            fst (process_results (pre @ [NotFound, NotFound, NotFound, NotFound])
                   (st\<lparr>nextId := nextId st + 8\<rparr>) 0),
            Inr (snd (process_results (pre @ [NotFound, NotFound, NotFound, NotFound])
                   (st\<lparr>nextId := nextId st + 8\<rparr>) 0)))
         \<and> complete (fst (snd (run_batch up st)))"
proof -
  have "await_all (map (\<lambda>i. fetchQuestionById (up i) i) (batch_ids (nextId st)))
          = Inr (pre @ [NotFound, NotFound, NotFound, NotFound] @ rest)"
    by (simp only: assms(2) await_all_map_Inr)
  from run_batch_returns [OF this]
    process_results_stop [of "st\<lparr>nextId := nextId st + 8\<rparr>" pre rest 0] assms(1)
  show ?thesis by simp
qed

lemma batch_ids_201: "batch_ids 201 = [201, 202, 203, 204, 205, 206, 207, 208]"
  by (simp add: batch_ids_unfold)

lemma fetch_no_such_question: "fetchQuestionById (no_such_question i) i = Inr NotFound"
  by (simp add: fetchQuestionById_def no_such_question_def)

lemma run_batch_indexed_200:
  "run_batch no_such_question indexed_200 =
     ([201, 202, 203, 204, 205, 206, 207, 208],
      indexed_200\<lparr>nextId := 209, notFoundStreak := 4, complete := True\<rparr>, Inr 0)"
  by (simp add: run_batch_def batch_ids_201 fetch_no_such_question indexed_200_def Let_def
        batchSize_def maxConsecutiveNotFound_def minIndexedBeforeStop_def)

text \<open>
  C3, as stated, fails: the eight fetches of a batch are issued together and awaited
  before the first result is looked at. With 200 entries indexed and every identifier
  from 201 missing, completion latches at the fourth response (204), and 205 to 208 have
  been fetched nevertheless.
\<close>

theorem crawl_stop_counterexample:
  "complete (fst (snd (run_batch no_such_question indexed_200)))
   \<and> notFoundStreak (fst (snd (run_batch no_such_question indexed_200))) = 4
   \<and> fst (run_batch no_such_question indexed_200) = [201, 202, 203, 204, 205, 206, 207, 208]"
  by (simp add: run_batch_indexed_200)

theorem crawl_stop_amended_witness:
  "minIndexedBeforeStop \<le> int (length (items indexed_200))
   \<and> map (\<lambda>i. fetchQuestionById (no_such_question i) i) (batch_ids (nextId indexed_200))
       = map Inr ([] @ [NotFound, NotFound, NotFound, NotFound] @ [NotFound, NotFound, NotFound, NotFound])
   \<and> run_batch no_such_question indexed_200 =
           (batch_ids (nextId indexed_200),
            fst (process_results ([] @ [NotFound, NotFound, NotFound, NotFound])
                   (indexed_200\<lparr>nextId := nextId indexed_200 + 8\<rparr>) 0),
            Inr (snd (process_results ([] @ [NotFound, NotFound, NotFound, NotFound])
                   (indexed_200\<lparr>nextId := nextId indexed_200 + 8\<rparr>) 0)))
   \<and> complete (fst (snd (run_batch no_such_question indexed_200)))"
proof -
  have h1: "minIndexedBeforeStop \<le> int (length (items indexed_200))"
    by (simp add: indexed_200_def minIndexedBeforeStop_def)
  have h2: "map (\<lambda>i. fetchQuestionById (no_such_question i) i) (batch_ids (nextId indexed_200))
       = map Inr ([] @ [NotFound, NotFound, NotFound, NotFound] @ [NotFound, NotFound, NotFound, NotFound])"
    by (simp add: indexed_200_def batch_ids_201 fetch_no_such_question)
  from crawl_stop_amended [OF h1 h2] h1 h2 show ?thesis by blast
qed

lemma process_results_all_not_found:
  assumes "int (length (items st)) < minIndexedBeforeStop"
  shows "process_results (replicate k NotFound) st n = (st\<lparr>notFoundStreak := notFoundStreak st + k\<rparr>, n)"
  using assms
proof (induction k arbitrary: st)
  case 0
  then show ?case by simp
next
  case (Suc k)
  from Suc.IH [of "st\<lparr>notFoundStreak := notFoundStreak st + 1\<rparr>"] Suc.prems
  show ?case by (simp add: Let_def)
qed

lemma run_batch_all_not_found:
  assumes "\<forall>i \<in> set (batch_ids (nextId st)). fetchQuestionById (up i) i = Inr NotFound"
    and "int (length (items st)) < minIndexedBeforeStop"
  shows "run_batch up st =
     (batch_ids (nextId st), st\<lparr>nextId := nextId st + 8, notFoundStreak := notFoundStreak st + 8\<rparr>, Inr 0)"
proof -
  have "map (\<lambda>i. fetchQuestionById (up i) i) (batch_ids (nextId st)) = map Inr (replicate 8 NotFound)"
    using assms(1) by (simp add: batch_ids_unfold eval_nat_numeral)
  then have "await_all (map (\<lambda>i. fetchQuestionById (up i) i) (batch_ids (nextId st)))
      = Inr (replicate 8 NotFound)"
    by (simp only: await_all_map_Inr)
  from run_batch_returns [OF this]
    process_results_all_not_found [of "st\<lparr>nextId := nextId st + 8\<rparr>" 8 0] assms(2)
  show ?thesis by simp
qed

text \<open>
  C4: a call of \<open>ensureIndexedUntilEnd\<close> that ends (by returning or by throwing) leaves the
  cursor at least where it was and completion set if it was set, provided the state is
  not the corrupted one (complete with no entry) that \<open>getIndexState\<close> resets; the same
  holds for each transition, \<open>getIndexState\<close> and a batch. For a batch whose eight
  identifiers all return "not found" while fewer than 200 entries are indexed,
  completion does not latch and the cursor ends beyond every identifier of the batch.
\<close>

theorem crawl_monotone:
  "(ensureIndexedUntilEnd fuel env (Some s) = Some r \<and> \<not> (complete s \<and> items s = [])
      \<longrightarrow> nextId s \<le> nextId (final r) \<and> (complete s \<longrightarrow> complete (final r)))
   \<and> (\<not> (complete s \<and> items s = [])
      \<longrightarrow> nextId s \<le> nextId (getIndexState (Some s))
          \<and> (complete s \<longrightarrow> complete (getIndexState (Some s))))
   \<and> nextId st \<le> nextId (fst (snd (run_batch up st)))
   \<and> (complete st \<longrightarrow> complete (fst (snd (run_batch up st))))
   \<and> ((\<forall>i \<in> set (batch_ids (nextId st)). fetchQuestionById (up i) i = Inr NotFound)
       \<and> int (length (items st)) < minIndexedBeforeStop \<and> \<not> complete st
      \<longrightarrow> \<not> complete (fst (snd (run_batch up st)))
          \<and> nextId (fst (snd (run_batch up st))) = nextId st + 8
          \<and> (\<forall>i \<in> set (batch_ids (nextId st)). i < nextId (fst (snd (run_batch up st)))))"
proof (intro conjI impI)
  assume a: "ensureIndexedUntilEnd fuel env (Some s) = Some r \<and> \<not> (complete s \<and> items s = [])"
  then show "nextId s \<le> nextId (final r)" using ensureIndexed_facts(1) by blast
  from a show "complete s \<Longrightarrow> complete (final r)" using ensureIndexed_facts(2) by blast
next
  assume "\<not> (complete s \<and> items s = [])"
  then show "nextId s \<le> nextId (getIndexState (Some s))" by (simp add: getIndexState_facts)
next
  assume "\<not> (complete s \<and> items s = [])" and "complete s"
  then show "complete (getIndexState (Some s))" by (simp add: getIndexState_facts)
next
  show "nextId st \<le> nextId (fst (snd (run_batch up st)))" by (simp add: run_batch_nextId)
next
  assume "complete st" then show "complete (fst (snd (run_batch up st)))"
    by (rule run_batch_complete)
next
  assume a: "(\<forall>i \<in> set (batch_ids (nextId st)). fetchQuestionById (up i) i = Inr NotFound)
       \<and> int (length (items st)) < minIndexedBeforeStop \<and> \<not> complete st"
  then have rb: "run_batch up st =
     (batch_ids (nextId st), st\<lparr>nextId := nextId st + 8, notFoundStreak := notFoundStreak st + 8\<rparr>, Inr 0)"
    using run_batch_all_not_found by blast
  from a rb show "\<not> complete (fst (snd (run_batch up st)))" by simp
  show "nextId (fst (snd (run_batch up st))) = nextId st + 8" by (simp add: run_batch_nextId)
  show "\<forall>i \<in> set (batch_ids (nextId st)). i < nextId (fst (snd (run_batch up st)))"
    by (auto simp: run_batch_nextId dest: batch_ids_less)
qed

lemma batch_ids_101: "batch_ids 101 = [101, 102, 103, 104, 105, 106, 107, 108]"
  by (simp add: batch_ids_unfold)

lemma run_batch_at_101:
  "run_batch no_such_question at_101 =
     ([101, 102, 103, 104, 105, 106, 107, 108], at_101\<lparr>nextId := 109, notFoundStreak := 8\<rparr>, Inr 0)"
  by (simp add: run_batch_def batch_ids_101 fetch_no_such_question at_101_def Let_def
        batchSize_def maxConsecutiveNotFound_def minIndexedBeforeStop_def)

lemma ensureIndexed_at_101:
  "ensureIndexedUntilEnd 2 quiet_env (Some at_101) =
     Some \<lparr>final = at_101\<lparr>nextId := 109, notFoundStreak := 8\<rparr>,
           probed = [101, 102, 103, 104, 105, 106, 107, 108], outcome = Inr 0\<rparr>"
proof -
  have g: "getIndexState (Some at_101) = at_101"
    by (simp add: getIndexState_def at_101_def)
  have nc: "\<not> complete at_101" by (simp add: at_101_def)
  have s2: "crawl_loop (Suc (Suc 0)) quiet_env 0 at_101 0 [] =
     Some \<lparr>final = at_101\<lparr>nextId := 109, notFoundStreak := 8\<rparr>,
           probed = [101, 102, 103, 104, 105, 106, 107, 108], outcome = Inr 0\<rparr>"
    using nc by (simp add: quiet_env_def one_batch_env_def run_batch_at_101)
  show ?thesis using nc s2 by (simp add: ensureIndexedUntilEnd_def g eval_nat_numeral)
qed

lemma ensureIndexed_done_200:
  "ensureIndexedUntilEnd 0 quiet_env (Some (indexed_200\<lparr>complete := True\<rparr>)) =
     Some \<lparr>final = indexed_200\<lparr>complete := True\<rparr>, probed = [], outcome = Inr 0\<rparr>"
  by (simp add: ensureIndexedUntilEnd_def getIndexState_def indexed_200_def)

theorem crawl_monotone_witness:
  "ensureIndexedUntilEnd 2 quiet_env (Some at_101) =
     Some \<lparr>final = at_101\<lparr>nextId := 109, notFoundStreak := 8\<rparr>,
           probed = [101, 102, 103, 104, 105, 106, 107, 108], outcome = Inr 0\<rparr>
   \<and> \<not> (complete at_101 \<and> items at_101 = [])
   \<and> nextId at_101 \<le> 109
   \<and> map (\<lambda>i. fetchQuestionById (no_such_question i) i) (batch_ids (nextId at_101))
       = replicate 8 (Inr NotFound)
   \<and> int (length (items at_101)) < minIndexedBeforeStop \<and> \<not> complete at_101
   \<and> \<not> complete (fst (snd (run_batch no_such_question at_101)))
   \<and> nextId (fst (snd (run_batch no_such_question at_101))) = 109
   \<and> list_all (\<lambda>i. i < nextId (fst (snd (run_batch no_such_question at_101))))
         [101, 102, 103, 104, 105, 106, 107, 108]
   \<and> ensureIndexedUntilEnd 0 quiet_env (Some (indexed_200\<lparr>complete := True\<rparr>)) =
       Some \<lparr>final = indexed_200\<lparr>complete := True\<rparr>, probed = [], outcome = Inr 0\<rparr>
   \<and> \<not> (complete (indexed_200\<lparr>complete := True\<rparr>) \<and> items (indexed_200\<lparr>complete := True\<rparr>) = [])
   \<and> complete (indexed_200\<lparr>complete := True\<rparr>)
   \<and> complete (final \<lparr>final = indexed_200\<lparr>complete := True\<rparr>, probed = [], outcome = Inr 0\<rparr>)
   \<and> complete (getIndexState (Some (indexed_200\<lparr>complete := True\<rparr>)))
   \<and> complete (fst (snd (run_batch no_such_question (indexed_200\<lparr>complete := True\<rparr>))))"
proof -
  let ?r = "\<lparr>final = at_101\<lparr>nextId := 109, notFoundStreak := 8\<rparr>,
        probed = [101, 102, 103, 104, 105, 106, 107, 108], outcome = Inr 0\<rparr>"
  let ?d = "indexed_200\<lparr>complete := True\<rparr>"
  have n101: "nextId at_101 = 101" by (simp add: at_101_def)
  have h_ok: "\<not> (complete at_101 \<and> items at_101 = [])" by (simp add: at_101_def)
  have h_nf: "\<forall>i \<in> set (batch_ids (nextId at_101)).
      fetchQuestionById (no_such_question i) i = Inr NotFound"
    by (simp add: fetch_no_such_question)
  have h_map: "map (\<lambda>i. fetchQuestionById (no_such_question i) i) (batch_ids (nextId at_101))
       = replicate 8 (Inr NotFound)"
    by (simp add: fetch_no_such_question n101 batch_ids_101 eval_nat_numeral)
  have h_lt: "int (length (items at_101)) < minIndexedBeforeStop"
    by (simp add: at_101_def minIndexedBeforeStop_def)
  have h_nc: "\<not> complete at_101" by (simp add: at_101_def)
  note t1 = crawl_monotone [of 2 quiet_env at_101 ?r at_101 no_such_question]
  from t1 ensureIndexed_at_101 h_ok have c1: "nextId at_101 \<le> nextId (final ?r)" by blast
  from t1 h_nf h_lt h_nc
  have c2: "\<not> complete (fst (snd (run_batch no_such_question at_101)))"
    and c3: "nextId (fst (snd (run_batch no_such_question at_101))) = nextId at_101 + 8"
    and c4: "\<forall>i \<in> set (batch_ids (nextId at_101)).
         i < nextId (fst (snd (run_batch no_such_question at_101)))"
    by blast+
  have ne: "items ?d \<noteq> []" by (simp add: indexed_200_def upto.simps)
  have cd: "complete ?d" by simp
  note t2 = crawl_monotone [of 0 quiet_env ?d
      "\<lparr>final = ?d, probed = [], outcome = Inr 0\<rparr>" ?d no_such_question]
  from t2 ensureIndexed_done_200 ne cd
  have d1: "complete (final \<lparr>final = ?d, probed = [], outcome = Inr 0\<rparr>)"
    and d2: "complete (getIndexState (Some ?d))"
    and d3: "complete (fst (snd (run_batch no_such_question ?d)))"
    by blast+
  have c1': "nextId at_101 \<le> 109" using c1 by simp
  have c3': "nextId (fst (snd (run_batch no_such_question at_101))) = 109"
    using c3 n101 by simp
  have c4': "list_all (\<lambda>i. i < nextId (fst (snd (run_batch no_such_question at_101))))
         [101, 102, 103, 104, 105, 106, 107, 108]"
    using c4 by (simp add: n101 batch_ids_101)
  from ensureIndexed_at_101 h_ok c1' h_map h_lt h_nc c2 c3' c4' ensureIndexed_done_200 ne cd
    d1 d2 d3
  show ?thesis by blast
qed

lemma failed_batch:
  assumes "\<not> complete st" and "\<not> clock env (Suc n) - clock env 0 > timeBudgetMs env"
    and "i \<in> set (batch_ids (nextId st))" and "fetchQuestionById (upstream env n i) i = Inl e"
  shows "\<exists>e'. Inl e' \<in> set (map (\<lambda>j. fetchQuestionById (upstream env n j) j) (batch_ids (nextId st)))
     \<and> crawl_loop (Suc fuel) env n st newly ps =
         Some \<lparr>final = st\<lparr>nextId := nextId st + 8\<rparr>, probed = ps @ batch_ids (nextId st),
               outcome = Inl e'\<rparr>"
proof -
  let ?rs = "map (\<lambda>j. fetchQuestionById (upstream env n j) j) (batch_ids (nextId st))"
  have "Inl e \<in> set ?rs" using assms(3,4) by force
  then obtain e' where e': "await_all ?rs = Inl e'" using await_all_fails by blast
  have mem: "Inl e' \<in> set ?rs" using await_all_Inl_mem [OF e'] .
  have "crawl_loop (Suc fuel) env n st newly ps =
         Some \<lparr>final = st\<lparr>nextId := nextId st + 8\<rparr>, probed = ps @ batch_ids (nextId st),
               outcome = Inl e'\<rparr>"
    by (simp add: crawl_loop_step [OF assms(1,2)] run_batch_throws [OF e'] del: crawl_loop.simps)
  with mem show ?thesis by blast
qed

text \<open>The loop from its n-th round on.\<close>

lemma crawl_loop_from_head:
  "loop_head env n st0 = Some (st, newly, ps) \<Longrightarrow>
   crawl_loop (n + fuel) env 0 st0 0 [] = crawl_loop fuel env n st newly ps"
proof (induction n arbitrary: st newly ps fuel)
  case 0
  then show ?case by simp
next
  case (Suc n)
  from Suc.prems obtain s nw q where h: "loop_head env n st0 = Some (s, nw, q)"
    by (cases "loop_head env n st0") auto
  from Suc.prems h have nc: "\<not> complete s"
    and tm: "\<not> clock env (Suc n) - clock env 0 > timeBudgetMs env"
    by (auto split: if_splits)
  from Suc.prems h nc tm obtain k where
    ok: "snd (snd (run_batch (upstream env n) s)) = Inr k"
    and st: "st = fst (snd (run_batch (upstream env n) s))"
    and nw: "newly = nw + k" and ps: "ps = q @ batch_ids (nextId s)"
    using run_batch_probed [of "upstream env n" s]
    by (cases "run_batch (upstream env n) s") (auto split: sum.splits)
  have "crawl_loop (Suc n + fuel) env 0 st0 0 [] = crawl_loop (Suc fuel) env n s nw q"
    using Suc.IH [OF h, of "Suc fuel"] by simp
  also have "\<dots> = crawl_loop fuel env (Suc n) st newly ps"
    by (simp add: crawl_loop_step [OF nc tm] ok st nw ps del: crawl_loop.simps)
  finally show ?case .
qed

lemma loop_head_entered:
  "loop_head env n st0 = Some (st, newly, ps) \<Longrightarrow> complete st0 \<Longrightarrow> n = 0"
proof (induction n arbitrary: st newly ps)
  case 0
  then show ?case by simp
next
  case (Suc n)
  from Suc.prems(1) obtain s nw q where h: "loop_head env n st0 = Some (s, nw, q)"
    and nc: "\<not> complete s"
    by (cases "loop_head env n st0") (auto split: if_splits)
  from Suc.IH [OF h Suc.prems(2)] h have "s = st0" by simp
  with nc Suc.prems(2) show ?case by simp
qed

lemma loop_head_items:
  "loop_head env n st0 = Some (st, newly, ps) \<Longrightarrow> \<exists>ys. items st = items st0 @ ys"
proof (induction n arbitrary: st newly ps)
  case 0
  then show ?case by simp
next
  case (Suc n)
  from Suc.prems obtain s nw q where h: "loop_head env n st0 = Some (s, nw, q)"
    by (cases "loop_head env n st0") auto
  from Suc.prems h have st: "st = fst (snd (run_batch (upstream env n) s))"
    by (cases "run_batch (upstream env n) s") (auto split: if_splits sum.splits)
  from Suc.IH [OF h] run_batch_items [of "upstream env n" s] show ?case
    unfolding st by auto
qed

text \<open>
  C7: when a call of \<open>ensureIndexedUntilEnd\<close> gets to a round of its loop (the state is
  not complete, the budget is not used up) and a fetch of that round's batch fails, the
  call ends by throwing the error of a failed fetch of that batch. The shared state it
  leaves holds exactly the entries present when the batch started, which are those
  present when the call started followed by those appended in its earlier rounds; the
  next call reads them through \<open>getIndexState\<close>, and every later call that ends leaves
  them at the front of the index.
\<close>

theorem fetch_error_propagates:
  assumes "loop_head env n (getIndexState g) = Some (st, newly, ps)"
    and "\<not> complete st" and "\<not> clock env (Suc n) - clock env 0 > timeBudgetMs env"
    and "i \<in> set (batch_ids (nextId st))" and "fetchQuestionById (upstream env n i) i = Inl e"
  shows "\<exists>r e'. ensureIndexedUntilEnd (Suc (n + fuel)) env g = Some r
     \<and> outcome r = Inl e'
     \<and> (\<exists>j \<in> set (batch_ids (nextId st)). fetchQuestionById (upstream env n j) j = Inl e')
     \<and> items (final r) = items st
     \<and> (\<exists>ys. items st = items (getIndexState g) @ ys)
     \<and> items (getIndexState (Some (final r))) = items st
     \<and> (\<forall>fuel2 env2 r2. ensureIndexedUntilEnd fuel2 env2 (Some (final r)) = Some r2
           \<longrightarrow> (\<exists>zs. items (final r2) = items st @ zs))"
proof -
  let ?st0 = "getIndexState g"
  let ?fin = "st\<lparr>nextId := nextId st + 8\<rparr>"
  have nc0: "\<not> complete ?st0"
  proof
    assume c: "complete ?st0"
    with loop_head_entered [OF assms(1)] have "n = 0" by simp
    with assms(1) have "st = ?st0" by simp
    with c assms(2) show False by simp
  qed
  from failed_batch [OF assms(2-5), of fuel newly ps] obtain e' where
    mem: "Inl e' \<in> set (map (\<lambda>j. fetchQuestionById (upstream env n j) j) (batch_ids (nextId st)))"
    and r: "crawl_loop (Suc fuel) env n st newly ps =
         Some \<lparr>final = ?fin, probed = ps @ batch_ids (nextId st), outcome = Inl e'\<rparr>"
    by blast
  have "ensureIndexedUntilEnd (Suc (n + fuel)) env g = crawl_loop (n + Suc fuel) env 0 ?st0 0 []"
    using nc0 by (simp add: ensureIndexedUntilEnd_def Let_def del: crawl_loop.simps)
  also have "\<dots> = crawl_loop (Suc fuel) env n st newly ps"
    by (rule crawl_loop_from_head [OF assms(1)])
  finally have call: "ensureIndexedUntilEnd (Suc (n + fuel)) env g =
      Some \<lparr>final = ?fin, probed = ps @ batch_ids (nextId st), outcome = Inl e'\<rparr>"
    using r by simp
  from mem have src: "\<exists>j \<in> set (batch_ids (nextId st)). fetchQuestionById (upstream env n j) j = Inl e'"
    by auto
  have grown: "\<exists>ys. items st = items ?st0 @ ys" by (rule loop_head_items [OF assms(1)])
  have next_read: "items (getIndexState (Some ?fin)) = items st"
    using assms(2) by (simp add: getIndexState_def)
  have later: "\<exists>zs. items (final r2) = items st @ zs"
    if "ensureIndexedUntilEnd fuel2 env2 (Some ?fin) = Some r2" for fuel2 env2 r2
    using ensureIndexed_facts(3) [OF that] assms(2) by simp
  show ?thesis
    by (intro exI [of _ "\<lparr>final = ?fin, probed = ps @ batch_ids (nextId st), outcome = Inl e'\<rparr>"]
          exI [of _ e'])
       (use call src grown next_read later in simp)
qed





lemma fetch_failing_third_1:
  "fetchQuestionById (upstream failing_env 0 1) 1
     = Inr (Found (indexed 1 ''What is the penalty for a spin?'' []))"
  by (simp add: failing_env_def one_batch_env_def failing_third_def fetchQuestionById_def
        sample_question_def image_urls_def trim_def is_space_def)




lemma after_first_batch_eval:
  "run_batch flaky_upstream seeded_state = ([2, 3, 4, 5, 6, 7, 8, 9], after_first_batch, Inr 7)
   \<and> map qid (items after_first_batch) = [1, 2, 4, 5, 6, 7, 8, 9]
   \<and> nextId after_first_batch = 10 \<and> \<not> complete after_first_batch"
  by code_simp

lemma flaky_head:
  "loop_head flaky_env (Suc 0) (getIndexState (Some seeded_state))
     = Some (after_first_batch, 7, [2, 3, 4, 5, 6, 7, 8, 9])"
proof -
  have g: "getIndexState (Some seeded_state) = seeded_state"
    by (simp add: getIndexState_def seeded_state_def)
  have nc: "\<not> complete seeded_state" by (simp add: seeded_state_def)
  have tm: "\<not> clock flaky_env (Suc 0) - clock flaky_env 0 > timeBudgetMs flaky_env"
    by (simp add: flaky_env_def)
  have up: "upstream flaky_env 0 = flaky_upstream" by (simp add: flaky_env_def)
  show ?thesis using nc tm after_first_batch_eval by (simp add: g up)
qed

theorem fetch_error_propagates_witness:
  "loop_head flaky_env (Suc 0) (getIndexState (Some seeded_state))
     = Some (after_first_batch, 7, [2, 3, 4, 5, 6, 7, 8, 9])
   \<and> \<not> complete after_first_batch
   \<and> \<not> clock flaky_env (Suc (Suc 0)) - clock flaky_env 0 > timeBudgetMs flaky_env
   \<and> 12 \<in> set (batch_ids (nextId after_first_batch))
   \<and> fetchQuestionById (upstream flaky_env (Suc 0) 12) 12 = Inl (RequestFailed 500)
   \<and> map qid (items (getIndexState (Some seeded_state))) = [1]
   \<and> map qid (items after_first_batch) = [1, 2, 4, 5, 6, 7, 8, 9]
   \<and> (\<exists>r e'. ensureIndexedUntilEnd (Suc (Suc 0 + 0)) flaky_env (Some seeded_state) = Some r
        \<and> outcome r = Inl e'
        \<and> map qid (items (final r)) = [1, 2, 4, 5, 6, 7, 8, 9]
        \<and> map qid (items (getIndexState (Some (final r)))) = [1, 2, 4, 5, 6, 7, 8, 9])"
proof -
  have h2: "\<not> complete after_first_batch" using after_first_batch_eval by simp
  have h3: "\<not> clock flaky_env (Suc (Suc 0)) - clock flaky_env 0 > timeBudgetMs flaky_env"
    by (simp add: flaky_env_def)
  have h4: "12 \<in> set (batch_ids (nextId after_first_batch))"
    using after_first_batch_eval by (simp add: batch_ids_unfold)
  have h5: "fetchQuestionById (upstream flaky_env (Suc 0) 12) 12 = Inl (RequestFailed 500)"
    by (simp add: flaky_env_def flaky_upstream_def fetchQuestionById_def)
  have s0: "map qid (items (getIndexState (Some seeded_state))) = [1]"
    by (simp add: getIndexState_def seeded_state_def indexed_def)
  have s1: "map qid (items after_first_batch) = [1, 2, 4, 5, 6, 7, 8, 9]"
    using after_first_batch_eval by simp
  from fetch_error_propagates [OF flaky_head h2 h3 h4 h5, of 0] obtain r e' where
    "ensureIndexedUntilEnd (Suc (Suc 0 + 0)) flaky_env (Some seeded_state) = Some r"
    "outcome r = Inl e'" "items (final r) = items after_first_batch"
    "items (getIndexState (Some (final r))) = items after_first_batch"
    by blast
  then have "\<exists>r e'. ensureIndexedUntilEnd (Suc (Suc 0 + 0)) flaky_env (Some seeded_state) = Some r
        \<and> outcome r = Inl e'
        \<and> map qid (items (final r)) = [1, 2, 4, 5, 6, 7, 8, 9]
        \<and> map qid (items (getIndexState (Some (final r)))) = [1, 2, 4, 5, 6, 7, 8, 9]"
    using s1 by auto
  with flaky_head h2 h3 h4 h5 s0 s1 show ?thesis by blast
qed


section \<open>Properties of the document index\<close>

subsection \<open>Loading\<close>

lemma loadIndex_missing_iff:
  "(\<exists>q. fst (loadIndex rt p cache) = Inl (MissingIndexError q))
     \<longleftrightarrow> statSync rt p = Enoent
         \<or> (\<exists>m. statSync rt p = Done m \<and> \<not> cached cache p m \<and> readFile rt p = Enoent)"
  by (auto simp: loadIndex_def cached_def split: io.splits option.splits if_splits)

lemma loadIndex_unparsable:
  "statSync rt p = Done m \<Longrightarrow> \<not> cached cache p m \<Longrightarrow> readFile rt p = Done raw \<Longrightarrow>
   JSON_parse rt raw = None \<Longrightarrow> loadIndex rt p cache = (Inl SyntaxError, cache)"
  by (simp add: loadIndex_def)

lemma loadIndex_cached:
  "statSync rt p = Done m \<Longrightarrow> cache = Some ix \<Longrightarrow> cached cache p m \<Longrightarrow>
   loadIndex rt p cache = (Inr ix, cache)"
  by (simp add: loadIndex_def)

text \<open>
  C6: \<open>loadIndex\<close> fails with \<open>MissingIndexError\<close> exactly when the file system reports
  that the bundle does not exist: \<open>ENOENT\<close> from \<open>statSync\<close>, or from \<open>readFile\<close> when the
  bundle is read. The bundle is read when \<open>statSync\<close> succeeds and no index is cached for
  the path and the modification time; an index cached for them is returned as it is,
  without reading or parsing (the cache rule of the load), and the cache is left as it
  was. When the bundle exists, is read and cannot be parsed, the load fails with the
  \<open>SyntaxError\<close> of \<open>JSON.parse\<close>, an error other than \<open>MissingIndexError\<close>, and the cache
  is left as it was.
\<close>

theorem load_errors:
  "((\<exists>q. fst (loadIndex rt p cache) = Inl (MissingIndexError q))
     \<longleftrightarrow> statSync rt p = Enoent
         \<or> (\<exists>m. statSync rt p = Done m \<and> \<not> cached cache p m \<and> readFile rt p = Enoent))
   \<and> (fst (loadIndex rt p cache) = Inl (MissingIndexError q) \<longrightarrow> q = p)
   \<and> (statSync rt p = Done m \<and> \<not> cached cache p m \<and> readFile rt p = Done raw
        \<and> JSON_parse rt raw = None
      \<longrightarrow> loadIndex rt p cache = (Inl SyntaxError, cache)
          \<and> fst (loadIndex rt p cache) \<noteq> Inl (MissingIndexError p))
   \<and> (statSync rt p = Done m \<and> cache = Some ix \<and> cached cache p m
      \<longrightarrow> loadIndex rt p cache = (Inr ix, cache))"
proof -
  have "fst (loadIndex rt p cache) = Inl (MissingIndexError q) \<longrightarrow> q = p"
    by (auto simp: loadIndex_def split: io.splits option.splits if_splits)
  then show ?thesis
    using loadIndex_missing_iff [of rt p cache] loadIndex_unparsable [of rt p m cache raw]
      loadIndex_cached [of rt p m cache ix]
    by auto
qed

lemma garbled_stat: "statSync garbled_rt sample_path = Done 5"
  by (simp add: garbled_rt_def)

lemma garbled_read: "readFile garbled_rt sample_path = Done ''{''"
  by (simp add: garbled_rt_def)

lemma garbled_parse: "JSON_parse garbled_rt ''{'' = None"
  by (simp add: garbled_rt_def)

lemma sample_index_cached: "cached (Some sample_index) sample_path 5"
  by (simp add: cached_def sample_index_def build_index_def)

theorem load_errors_witness:
  "statSync no_bundle_rt sample_path = Enoent
   \<and> fst (loadIndex no_bundle_rt sample_path None) = Inl (MissingIndexError sample_path)
   \<and> statSync garbled_rt sample_path = Done 5 \<and> \<not> cached None sample_path 5
   \<and> readFile garbled_rt sample_path = Done ''{'' \<and> JSON_parse garbled_rt ''{'' = None
   \<and> loadIndex garbled_rt sample_path None = (Inl SyntaxError, None)
   \<and> fst (loadIndex garbled_rt sample_path None) \<noteq> Inl (MissingIndexError sample_path)
   \<and> cached (Some sample_index) sample_path 5
   \<and> loadIndex garbled_rt sample_path (Some sample_index) = (Inr sample_index, Some sample_index)"
proof -
  have nc: "\<not> cached None sample_path 5" by (simp add: cached_def)
  have st: "statSync no_bundle_rt sample_path = Enoent" by (simp add: no_bundle_rt_def)
  from load_errors [of no_bundle_rt sample_path None] st
  obtain q where q: "fst (loadIndex no_bundle_rt sample_path None) = Inl (MissingIndexError q)"
    by blast
  with load_errors [of no_bundle_rt sample_path None q] have "q = sample_path" by blast
  with q have a: "fst (loadIndex no_bundle_rt sample_path None) = Inl (MissingIndexError sample_path)"
    by simp
  from load_errors [of garbled_rt sample_path None _ 5 "''{''"]
    garbled_stat garbled_read garbled_parse nc
  have b: "loadIndex garbled_rt sample_path None = (Inl SyntaxError, None)
     \<and> fst (loadIndex garbled_rt sample_path None) \<noteq> Inl (MissingIndexError sample_path)"
    by blast
  from load_errors [of garbled_rt sample_path "Some sample_index" _ 5 _ sample_index]
    garbled_stat sample_index_cached
  have c: "loadIndex garbled_rt sample_path (Some sample_index) = (Inr sample_index, Some sample_index)"
    by blast
  from st a garbled_stat nc garbled_read garbled_parse b sample_index_cached c
  show ?thesis by blast
qed

subsection \<open>Repeated calls\<close>

lemma loadIndex_stable:
  "loadIndex rt p (snd (loadIndex rt p cache)) = loadIndex rt p cache"
  by (auto simp: loadIndex_def cached_def build_index_def split: io.splits option.splits if_splits)

lemma loadIndex_again:
  "fst (loadIndex rt p (snd (loadIndex rt p cache))) = fst (loadIndex rt p cache)"
  by (simp add: loadIndex_stable)

lemma searchDocs_cache: "snd (searchDocs rt p cache params) = snd (loadIndex rt p cache)"
  by (simp add: searchDocs_def split: prod.splits sum.splits)

lemma searchDocs_result:
  "fst (searchDocs rt p cache params) = map_sum id (\<lambda>ix. search_loaded ix params) (fst (loadIndex rt p cache))"
  by (simp add: searchDocs_def split: prod.splits sum.splits)

lemma expand_cache:
  "snd (expandHeaderContext rt p cache retrieved opts)
     = (if retrieved = [] then cache else snd (loadIndex rt p cache))"
  by (simp add: expandHeaderContext_def split: prod.splits sum.splits)

lemma expand_result:
  "fst (expandHeaderContext rt p cache retrieved opts)
     = (if retrieved = [] then Inr retrieved
        else map_sum id (\<lambda>ix. expand_loaded ix opts retrieved) (fst (loadIndex rt p cache)))"
  by (simp add: expandHeaderContext_def split: prod.splits sum.splits)

text \<open>
  C8: for a fixed file system and library (hence a fixed corpus) and fixed arguments, a
  second call of \<open>searchDocs\<close>, made on the cache the first call left, returns what the
  first returned, and so does a second call of \<open>expandHeaderContext\<close>; nor does a call of
  one of them change what the other returns. The only state either function reads or
  writes is the cached index, and \<open>loadIndex\<close> yields the same index before and after it
  caches it.
\<close>

theorem repeated_calls_agree:
  "fst (searchDocs rt p (snd (searchDocs rt p cache params)) params)
     = fst (searchDocs rt p cache params)
   \<and> fst (expandHeaderContext rt p (snd (expandHeaderContext rt p cache retrieved opts)) retrieved opts)
     = fst (expandHeaderContext rt p cache retrieved opts)
   \<and> fst (searchDocs rt p (snd (expandHeaderContext rt p cache retrieved opts)) params)
     = fst (searchDocs rt p cache params)
   \<and> fst (expandHeaderContext rt p (snd (searchDocs rt p cache params)) retrieved opts)
     = fst (expandHeaderContext rt p cache retrieved opts)"
  by (simp add: searchDocs_cache searchDocs_result expand_cache expand_result loadIndex_again)

lemma set_set_add: "set (set_add s x) = insert x (set s)"
  by (auto simp: set_add_def)

lemma distinct_set_add: "distinct s \<Longrightarrow> distinct (set_add s x)"
  by (simp add: set_add_def)

lemma set_uniq_aux: "set (foldl set_add acc xs) = set acc \<union> set xs"
  by (induction xs arbitrary: acc) (auto simp: set_set_add)

lemma set_uniq: "set (uniq xs) = set xs"
  by (simp add: uniq_def set_uniq_aux)

subsection \<open>The selection loops\<close>

lemma pick_capped_length:
  "int (length (fst (pick_capped out lmt picked perFile ids))) \<le> max lmt (int (length picked) + 1)"
proof (induction out arbitrary: picked perFile ids)
  case Nil
  then show ?case by simp
next
  case (Cons item rest)
  show ?case
    using Cons.IH [of picked perFile ids]
      Cons.IH [of "picked @ [item]" _ "set_add ids (chunkId item)"]
    by (auto simp: Let_def)
qed

lemma pick_capped_sorted:
  "sorted (map f (picked @ out)) \<Longrightarrow>
   sorted (map f (fst (pick_capped out lmt picked perFile ids)))"
proof (induction out arbitrary: picked perFile ids)
  case Nil
  then show ?case by simp
next
  case (Cons item rest)
  from Cons.prems have skip: "sorted (map f (picked @ rest))"
    by (auto simp: sorted_append)
  from Cons.prems have push: "sorted (map f ((picked @ [item]) @ rest))"
    by simp
  from Cons.prems have stop: "sorted (map f (picked @ [item]))"
    by (auto simp: sorted_append)
  show ?case
    using Cons.IH [OF skip] Cons.IH [OF push] stop
    by (simp add: Let_def)
qed

lemma pick_capped_ids:
  "set ids = chunkId ` set picked \<Longrightarrow>
   set (snd (pick_capped out lmt picked perFile ids))
     = chunkId ` set (fst (pick_capped out lmt picked perFile ids))"
proof (induction out arbitrary: picked perFile ids)
  case Nil
  then show ?case by simp
next
  case (Cons item rest)
  have push: "set (set_add ids (chunkId item)) = chunkId ` set (picked @ [item])"
    using Cons.prems by (auto simp: set_set_add)
  show ?case
    using Cons.IH [OF Cons.prems] Cons.IH [OF push] push
    by (simp add: Let_def)
qed

lemma pick_capped_distinct:
  "distinct (map chunkId (picked @ out)) \<Longrightarrow>
   distinct (map chunkId (fst (pick_capped out lmt picked perFile ids)))"
proof (induction out arbitrary: picked perFile ids)
  case Nil
  then show ?case by simp
next
  case (Cons item rest)
  from Cons.prems have skip: "distinct (map chunkId (picked @ rest))" by auto
  from Cons.prems have push: "distinct (map chunkId ((picked @ [item]) @ rest))" by auto
  from Cons.prems have stop: "distinct (map chunkId (picked @ [item]))" by auto
  show ?case
    using Cons.IH [OF skip] Cons.IH [OF push] stop
    by (simp add: Let_def)
qed

lemma pick_capped_cap:
  assumes "\<forall>f. (case map_of perFile f of None \<Rightarrow> 0 | Some n \<Rightarrow> n)
               = length (filter (\<lambda>c. fileName c = f) picked)"
    and "\<forall>f. length (filter (\<lambda>c. fileName c = f) picked) \<le> perFileCap"
  shows "length (filter (\<lambda>c. fileName c = f) (fst (pick_capped out lmt picked perFile ids)))
           \<le> perFileCap"
  using assms
proof (induction out arbitrary: picked perFile ids)
  case Nil
  then show ?case by simp
next
  case (Cons item rest)
  let ?count = "case map_of perFile (fileName item) of None \<Rightarrow> 0 | Some n \<Rightarrow> n"
  show ?case
  proof (cases "?count \<ge> perFileCap")
    case True
    then show ?thesis using Cons.IH [OF Cons.prems] by (simp add: Let_def)
  next
    case False
    have cnt: "?count = length (filter (\<lambda>c. fileName c = fileName item) picked)"
      using Cons.prems(1) by blast
    have a: "\<forall>g. (case map_of (AList.update (fileName item) (?count + 1) perFile) g of
                    None \<Rightarrow> 0 | Some n \<Rightarrow> n)
               = length (filter (\<lambda>c. fileName c = g) (picked @ [item]))"
      using Cons.prems(1) cnt by (auto simp: update_conv')
    have b: "\<forall>g. length (filter (\<lambda>c. fileName c = g) (picked @ [item])) \<le> perFileCap"
      using Cons.prems(2) False cnt by auto
    show ?thesis
      using False Cons.IH [OF a b] b by (simp add: Let_def)
  qed
qed

lemma backfill_length:
  "int (length (backfill out lmt picked ids)) \<le> max lmt (int (length picked) + 1)"
proof (induction out arbitrary: picked ids)
  case Nil
  then show ?case by simp
next
  case (Cons item rest)
  show ?case
    using Cons.IH [of picked ids] Cons.IH [of "picked @ [item]" "set_add ids (chunkId item)"]
    by auto
qed

lemma backfill_append:
  "sorted (map f (acc @ out)) \<Longrightarrow>
   \<exists>extra. backfill out lmt (base @ acc) ids = base @ extra \<and> sorted (map f extra)"
proof (induction out arbitrary: acc ids)
  case Nil
  then show ?case by (simp add: sorted_append)
next
  case (Cons item rest)
  from Cons.prems have skip: "sorted (map f (acc @ rest))"
    by (auto simp: sorted_append)
  from Cons.prems have push: "sorted (map f ((acc @ [item]) @ rest))"
    by simp
  from Cons.prems have stop: "sorted (map f (acc @ [item]))"
    by (auto simp: sorted_append)
  show ?case
    using Cons.IH [OF skip, of ids] Cons.IH [OF push, of "set_add ids (chunkId item)"] stop
    by auto
qed

lemma backfill_distinct:
  "distinct (map chunkId picked) \<Longrightarrow> set ids = chunkId ` set picked \<Longrightarrow>
   distinct (map chunkId (backfill out lmt picked ids))"
proof (induction out arbitrary: picked ids)
  case Nil
  then show ?case by simp
next
  case (Cons item rest)
  show ?case
  proof (cases "chunkId item \<in> set ids")
    case True
    then show ?thesis using Cons.IH [OF Cons.prems] by simp
  next
    case False
    then have d: "distinct (map chunkId (picked @ [item]))"
      using Cons.prems by auto
    have s: "set (set_add ids (chunkId item)) = chunkId ` set (picked @ [item])"
      using Cons.prems(2) by (auto simp: set_set_add)
    show ?thesis using False Cons.IH [OF d s] d by simp
  qed
qed

lemma diversify_length: "int (length (diversify out lmt)) \<le> max 1 lmt"
proof -
  obtain picked ids where p: "pick_capped out lmt [] [] [] = (picked, ids)"
    by (cases "pick_capped out lmt [] [] []") auto
  have a: "int (length picked) \<le> max lmt 1"
    using pick_capped_length [of out lmt "[]" "[]" "[]"] p by simp
  have b: "int (length (backfill out lmt picked ids)) \<le> max lmt (int (length picked) + 1)"
    by (rule backfill_length)
  show ?thesis using a b by (auto simp: diversify_def p)
qed

lemma diversify_shape:
  assumes "sorted (map (\<lambda>c. - score c) out)"
  shows "\<exists>capped extra. diversify out lmt = capped @ extra
     \<and> sorted (map (\<lambda>c. - score c) capped)
     \<and> sorted (map (\<lambda>c. - score c) extra)
     \<and> (\<forall>f. length (filter (\<lambda>c. fileName c = f) capped) \<le> perFileCap)
     \<and> (extra \<noteq> [] \<longrightarrow> int (length capped) < lmt)"
proof -
  obtain picked ids where p: "pick_capped out lmt [] [] [] = (picked, ids)"
    by (cases "pick_capped out lmt [] [] []") auto
  have s: "sorted (map (\<lambda>c. - score c) picked)"
    using pick_capped_sorted [of "\<lambda>c. - score c" "[]" out lmt "[]" "[]"] assms p by simp
  have c: "\<forall>f. length (filter (\<lambda>c. fileName c = f) picked) \<le> perFileCap"
    using pick_capped_cap [of "[]" "[]" _ out lmt "[]"] p by simp
  show ?thesis
  proof (cases "int (length picked) < lmt")
    case True
    from backfill_append [of "\<lambda>c. - score c" "[]" out lmt picked ids] assms
    obtain extra where e: "backfill out lmt picked ids = picked @ extra"
      "sorted (map (\<lambda>c. - score c) extra)" by auto
    show ?thesis using True s c e by (auto simp: diversify_def p)
  next
    case False
    then have "diversify out lmt = picked @ []" by (simp add: diversify_def p)
    then show ?thesis using s c by (intro exI [of _ picked] exI [of _ "[]"]) simp
  qed
qed

lemma diversify_distinct:
  assumes "distinct (map chunkId out)"
  shows "distinct (map chunkId (diversify out lmt))"
proof -
  obtain picked ids where p: "pick_capped out lmt [] [] [] = (picked, ids)"
    by (cases "pick_capped out lmt [] [] []") auto
  have d: "distinct (map chunkId picked)"
    using pick_capped_distinct [of "[]" out lmt "[]" "[]"] assms p by simp
  have i: "set ids = chunkId ` set picked"
    using pick_capped_ids [of "[]" "[]" out lmt "[]"] p by simp
  show ?thesis using d backfill_distinct [OF d i] by (simp add: diversify_def p)
qed

subsection \<open>The ranked candidates\<close>

lemma sorted_desc_descending: "descending (sort_desc score xs)"
proof -
  have "sorted (map (\<lambda>c. - score c) (sort_key (\<lambda>c. - score c) xs))"
    by (rule sorted_sort_key)
  then show ?thesis by (simp add: descending_def sort_desc_def sorted_map)
qed

lemma descending_iff: "descending rs \<longleftrightarrow> sorted (map (\<lambda>c. - score c) rs)"
  by (simp add: descending_def sorted_map)

lemma distinct_map_sort_key: "distinct (map g (sort_key f xs)) = distinct (map g xs)"
  by (simp add: distinct_map)

lemma addResults_distinct:
  "distinct (map fst m) \<Longrightarrow> distinct (map fst (addResults m rs w))"
  unfolding addResults_def
  by (induction rs arbitrary: m) (simp_all add: Let_def distinct_update)

lemma keyword_searches_distinct:
  "distinct (map fst m) \<Longrightarrow> distinct (map fst (keyword_searches ms ts m))"
  unfolding keyword_searches_def
  by (induction ts arbitrary: m) (simp_all add: Let_def addResults_distinct)

lemma resolve_hit_id:
  assumes "consistent ix" and "resolve_hit ix ka na yr ts r = Some c"
  shows "chunkId c = fst r"
proof -
  from assms(2) obtain chunk where m: "map_of (chunksById ix) (fst r) = Some chunk"
    and c: "chunkId c = chunkId chunk"
    by (auto simp: resolve_hit_def retrieved_of_def Let_def split: option.splits if_splits)
  from m have "(fst r, chunk) \<in> set (chunksById ix)" by (rule map_of_SomeD)
  with assms(1) have "chunkId chunk = fst r" by (auto simp: consistent_def list_all_iff)
  with c show ?thesis by simp
qed

lemma map_filter_ids:
  assumes "\<And>r c. g r = Some c \<Longrightarrow> chunkId c = fst r"
  shows "map chunkId (List.map_filter g rs) = map fst (filter (\<lambda>r. g r \<noteq> None) rs)"
  using assms by (induction rs) (auto simp: map_filter_simps split: option.splits)

lemma ranked_candidates_distinct:
  assumes "consistent ix"
  shows "distinct (map chunkId (ranked_candidates ix params))"
proof -
  have d: "distinct (map fst (take 250 (sort_desc snd
      (keyword_searches (mini ix) ts (addResults [] (take 250 (mini ix q)) 1)))))" for ts q
    using keyword_searches_distinct [OF addResults_distinct [of "[]"]]
    by (simp add: sort_desc_def take_map [symmetric] distinct_map_sort_key distinct_take
          del: take_map)
  have "distinct (map chunkId (List.map_filter (resolve_hit ix ka na yr ts)
      (take 250 (sort_desc snd
      (keyword_searches (mini ix) ts (addResults [] (take 250 (mini ix q)) 1))))))" for ka na yr ts q
    using d [of ts q] resolve_hit_id [OF assms]
    by (simp add: map_filter_ids distinct_map_filter)
  then show ?thesis
    by (simp add: ranked_candidates_def Let_def sort_desc_def distinct_map_sort_key)
qed

lemma ranked_candidates_descending: "descending (ranked_candidates ix params)"
  by (simp add: ranked_candidates_def Let_def sorted_desc_descending)

subsection \<open>Consistency of the cached index\<close>

lemma update_entries: "set (AList.update k v al) \<subseteq> insert (k, v) (set al)"
  by (induction al) auto

lemma build_index_consistent: "consistent (build_index b m p t)"
proof -
  have "list_all (\<lambda>(k, c). chunkId c = k) (foldl (\<lambda>acc c. AList.update (chunkId c) c acc) acc cs)"
    if "list_all (\<lambda>(k, c). chunkId c = k) acc" for acc cs
    using that
  proof (induction cs arbitrary: acc)
    case Nil
    then show ?case by simp
  next
    case (Cons c cs)
    have "list_all (\<lambda>(k, c). chunkId c = k) (AList.update (chunkId c) c acc)"
      using Cons.prems update_entries [of "chunkId c" c acc] by (auto simp: list_all_iff)
    from Cons.IH [OF this] show ?case by simp
  qed
  from this [of "[]"] show ?thesis by (simp add: consistent_def build_index_def)
qed

lemma loadIndex_consistent:
  assumes "cache_consistent cache" and "fst (loadIndex rt p cache) = Inr ix"
  shows "consistent ix"
  using assms build_index_consistent
  by (auto simp: loadIndex_def cache_consistent_def cached_def
           split: io.splits option.splits if_splits)

text \<open>The cache starts empty and is only written by \<open>loadIndex\<close>, which keeps it
  consistent.\<close>

lemma loadIndex_keeps_consistent:
  "cache_consistent cache \<Longrightarrow> cache_consistent (snd (loadIndex rt p cache))"
  using build_index_consistent
  by (auto simp: loadIndex_def cache_consistent_def cached_def
           split: io.splits option.splits if_splits)

subsection \<open>The expansion loops\<close>

lemma walk_after_inv:
  "expansion_inv R st \<Longrightarrow>
   expansion_inv R (walk_after ix ph et ec base terms cs added chars st)"
proof (induction cs arbitrary: added chars st)
  case Nil
  then show ?case by simp
next
  case (Cons c cs)
  show ?case
  proof (cases "chunkId c \<in> set (existingIds st) \<or> trim (chunk_text c) = []")
    case True
    then show ?thesis using Cons.IH [OF Cons.prems] by auto
  next
    case False
    let ?st' = "\<lparr>existingIds = set_add (existingIds st) (chunkId c),
                   pinnedIds = set_add (pinnedIds st) (chunkId c),
                   extras = extras st
                     @ [retrieved_of c (max 0.1 (score base * 0.7))
                          (makeExcerpt (trim (chunk_text c)) terms 900)
                          (case map_of (byFileMeta_of (bundle_of ix)) (fileId c) of
                             None \<Rightarrow> None
                           | Some f \<Rightarrow> buildExternalUrl (file_id f) c (driveByFileId ix))],
                   extraCount = extraCount st + 1\<rparr>"
    have inv': "expansion_inv R ?st'"
      using Cons.prems False
      by (auto simp: expansion_inv_def set_set_add distinct_set_add retrieved_of_def)
    show ?thesis
      using False Cons.prems inv' Cons.IH [OF inv']
      by (simp add: Let_def)
  qed
qed

lemma collect_extras_inv:
  "expansion_inv R st \<Longrightarrow> chunkId ` set bases \<subseteq> R \<Longrightarrow>
   expansion_inv R (collect_extras ix ph et ec bases st)"
proof (induction bases arbitrary: st)
  case Nil
  then show ?case by simp
next
  case (Cons base rest)
  from Cons.prems(2) have rest: "chunkId ` set rest \<subseteq> R" and b: "chunkId base \<in> R" by auto
  let ?st1 = "st\<lparr>pinnedIds := set_add (pinnedIds st) (chunkId base)\<rparr>"
  have inv1: "expansion_inv R ?st1"
    using Cons.prems(1) b by (auto simp: expansion_inv_def set_set_add distinct_set_add)
  show ?case
    using Cons.IH [OF Cons.prems(1) rest] Cons.IH [OF inv1 rest] Cons.prems(1)
      Cons.IH [OF walk_after_inv [OF inv1] rest]
    by (simp add: Let_def split: option.splits)
qed

lemma walk_after_grows:
  "extraCount st \<le> extraCount (walk_after ix ph et ec base terms cs added chars st)
   \<and> set (pinnedIds st) \<subseteq> set (pinnedIds (walk_after ix ph et ec base terms cs added chars st))"
proof (induction cs arbitrary: added chars st)
  case Nil
  then show ?case by simp
next
  case (Cons c cs)
  let ?st' = "\<lparr>existingIds = set_add (existingIds st) (chunkId c),
                 pinnedIds = set_add (pinnedIds st) (chunkId c),
                 extras = extras st
                   @ [retrieved_of c (max 0.1 (score base * 0.7))
                        (makeExcerpt (trim (chunk_text c)) terms 900)
                        (case map_of (byFileMeta_of (bundle_of ix)) (fileId c) of
                           None \<Rightarrow> None
                         | Some f \<Rightarrow> buildExternalUrl (file_id f) c (driveByFileId ix))],
                 extraCount = extraCount st + 1\<rparr>"
  let ?res = "walk_after ix ph et ec base terms (c # cs) added chars st"
  have step: "extraCount st \<le> extraCount ?st'" "set (pinnedIds st) \<subseteq> set (pinnedIds ?st')"
    by (auto simp: set_set_add)
  show ?case
  proof (cases "chunkId c \<in> set (existingIds st) \<or> trim (chunk_text c) = []")
    case True
    then have "?res = walk_after ix ph et ec base terms cs added chars st" by auto
    then show ?thesis using Cons.IH [of st added chars] by simp
  next
    case False
    show ?thesis
    proof (cases "added \<ge> ph \<or> extraCount st \<ge> et")
      case True
      with False have "?res = st" by auto
      then show ?thesis by simp
    next
      case go: False
      have "?res = ?st'
          \<or> ?res = walk_after ix ph et ec base terms cs (added + 1)
               (chars + int (length (trim (chunk_text c)))) ?st'"
        using False go by (simp add: Let_def)
      then show ?thesis
      proof
        assume "?res = ?st'"
        then show ?thesis using step by simp
      next
        assume r: "?res = walk_after ix ph et ec base terms cs (added + 1)
               (chars + int (length (trim (chunk_text c)))) ?st'"
        from Cons.IH [of ?st' "added + 1" "chars + int (length (trim (chunk_text c)))"] step
        show ?thesis unfolding r by (meson order_trans)
      qed
    qed
  qed
qed

lemma collect_extras_grows:
  "extraCount st \<le> extraCount (collect_extras ix ph et ec bases st)
   \<and> set (pinnedIds st) \<subseteq> set (pinnedIds (collect_extras ix ph et ec bases st))"
proof (induction bases arbitrary: st)
  case Nil
  then show ?case by simp
next
  case (Cons base rest)
  let ?res = "collect_extras ix ph et ec (base # rest) st"
  let ?st1 = "st\<lparr>pinnedIds := set_add (pinnedIds st) (chunkId base)\<rparr>"
  have s1: "extraCount st \<le> extraCount ?st1" "set (pinnedIds st) \<subseteq> set (pinnedIds ?st1)"
    by (auto simp: set_set_add)
  have "?res = st \<or> ?res = collect_extras ix ph et ec rest st
      \<or> (\<exists>st2. ?res = collect_extras ix ph et ec rest st2
            \<and> extraCount st \<le> extraCount st2 \<and> set (pinnedIds st) \<subseteq> set (pinnedIds st2))"
  proof (cases "\<not> isLikelyHeader (chunk_text base) \<or> length (trim (chunk_text base)) > 260
      \<or> extraCount st \<ge> et")
    case True
    then show ?thesis by auto
  next
    case False
    show ?thesis
    proof (cases "map_of (byFileId_of (bundle_of ix)) (fileId base)")
      case None
      with False have "?res = collect_extras ix ph et ec rest ?st1" by (simp add: Let_def)
      with s1 show ?thesis by blast
    next
      case (Some cs)
      show ?thesis
      proof (cases "after_chunk (chunkId base) cs")
        case None
        with False Some have "?res = collect_extras ix ph et ec rest ?st1"
          by (simp add: Let_def)
        with s1 show ?thesis by blast
      next
        case (Some following)
        let ?st2 = "walk_after ix ph et ec base (extractTerms (chunk_text base)) following 0 0 ?st1"
        from False \<open>map_of (byFileId_of (bundle_of ix)) (fileId base) = Some cs\<close> Some
        have "?res = collect_extras ix ph et ec rest ?st2" by (simp add: Let_def)
        moreover have "extraCount st \<le> extraCount ?st2 \<and> set (pinnedIds st) \<subseteq> set (pinnedIds ?st2)"
          using walk_after_grows
            [of ?st1 ix ph et ec base "extractTerms (chunk_text base)" following 0 0] s1
          by (meson order_trans)
        ultimately show ?thesis by blast
      qed
    qed
  qed
  then show ?case
  proof (elim disjE exE conjE)
    assume "?res = st" then show ?thesis by simp
  next
    assume r: "?res = collect_extras ix ph et ec rest st"
    show ?thesis unfolding r by (rule Cons.IH)
  next
    fix st2
    assume r: "?res = collect_extras ix ph et ec rest st2"
      and e: "extraCount st \<le> extraCount st2" and p: "set (pinnedIds st) \<subseteq> set (pinnedIds st2)"
    from Cons.IH [of st2] e p show ?thesis unfolding r by (meson order_trans)
  qed
qed

text \<open>While the budget for extras is not used up, every header among the retrieved chunks
  is pinned.\<close>

lemma collect_extras_headers:
  assumes "extraCount (collect_extras ix ph et ec bases st) < et"
    and "b \<in> set bases" and "isLikelyHeader (chunk_text b)"
    and "length (trim (chunk_text b)) \<le> 260"
  shows "chunkId b \<in> set (pinnedIds (collect_extras ix ph et ec bases st))"
  using assms(1,2)
proof (induction bases arbitrary: st)
  case Nil
  then show ?case by simp
next
  case (Cons base rest)
  let ?res = "collect_extras ix ph et ec (base # rest) st"
  show ?case
  proof (cases "\<not> isLikelyHeader (chunk_text base) \<or> length (trim (chunk_text base)) > 260")
    case True
    then have eq: "?res = collect_extras ix ph et ec rest st" by auto
    from True assms(3,4) have "b \<noteq> base" by auto
    with Cons.prems(2) have "b \<in> set rest" by simp
    from Cons.IH [OF _ this, of st] Cons.prems(1) show ?thesis unfolding eq by simp
  next
    case False
    have run: "\<not> extraCount st \<ge> et"
    proof
      assume "extraCount st \<ge> et"
      with False have "?res = st" by simp
      with Cons.prems(1) \<open>extraCount st \<ge> et\<close> show False by simp
    qed
    let ?st1 = "st\<lparr>pinnedIds := set_add (pinnedIds st) (chunkId base)\<rparr>"
    have "\<exists>st2. ?res = collect_extras ix ph et ec rest st2
        \<and> set (pinnedIds ?st1) \<subseteq> set (pinnedIds st2)"
    proof (cases "map_of (byFileId_of (bundle_of ix)) (fileId base)")
      case None
      with False run have "?res = collect_extras ix ph et ec rest ?st1" by (simp add: Let_def)
      then show ?thesis by blast
    next
      case (Some cs)
      show ?thesis
      proof (cases "after_chunk (chunkId base) cs")
        case None
        with False run Some have "?res = collect_extras ix ph et ec rest ?st1"
          by (simp add: Let_def)
        then show ?thesis by blast
      next
        case (Some following)
        let ?st2 = "walk_after ix ph et ec base (extractTerms (chunk_text base)) following 0 0 ?st1"
        from False run \<open>map_of (byFileId_of (bundle_of ix)) (fileId base) = Some cs\<close> Some
        have "?res = collect_extras ix ph et ec rest ?st2" by (simp add: Let_def)
        moreover have "set (pinnedIds ?st1) \<subseteq> set (pinnedIds ?st2)"
          using walk_after_grows
            [of ?st1 ix ph et ec base "extractTerms (chunk_text base)" following 0 0]
          by blast
        ultimately show ?thesis by blast
      qed
    qed
    then obtain st2 where eq: "?res = collect_extras ix ph et ec rest st2"
      and pin: "set (pinnedIds ?st1) \<subseteq> set (pinnedIds st2)"
      by blast
    show ?thesis
    proof (cases "b = base")
      case True
      have "chunkId base \<in> set (pinnedIds ?st1)" by (simp add: set_set_add)
      with pin collect_extras_grows [of st2 ix ph et ec rest] show ?thesis
        unfolding eq True by blast
    next
      case False
      with Cons.prems(2) have "b \<in> set rest" by simp
      from Cons.IH [OF _ this, of st2] Cons.prems(1) show ?thesis unfolding eq by simp
    qed
  qed
qed

lemma expansion_of_inv:
  "expansion_inv (chunkId ` set retrieved) (expansion_of ix opts retrieved)"
  unfolding expansion_of_def
  by (rule collect_extras_inv) (simp_all add: expansion_inv_def set_uniq)

subsection \<open>Maps\<close>

lemma new_Map_aux:
  "fst ` set (foldl (\<lambda>m (k, v). AList.update k v m) acc es) = fst ` set acc \<union> fst ` set es
   \<and> (distinct (map fst acc) \<longrightarrow> distinct (map fst (foldl (\<lambda>m (k, v). AList.update k v m) acc es)))
   \<and> set (foldl (\<lambda>m (k, v). AList.update k v m) acc es) \<subseteq> set acc \<union> set es"
proof (induction es arbitrary: acc)
  case Nil
  then show ?case by simp
next
  case (Cons e es)
  obtain k v where e: "e = (k, v)" by (cases e) auto
  show ?case
    using Cons.IH [of "AList.update k v acc"] update_entries [of k v acc]
    by (auto simp: e dom_update distinct_update)
qed

lemma new_Map_keys: "fst ` set (new_Map es) = fst ` set es"
  using new_Map_aux [of "[]" es] by (simp add: new_Map_def)

lemma new_Map_distinct: "distinct (map fst (new_Map es))"
  using new_Map_aux [of "[]" es] by (simp add: new_Map_def)

lemma new_Map_entries: "set (new_Map es) \<subseteq> set es"
  using new_Map_aux [of "[]" es] by (simp add: new_Map_def)

lemma drop_loop_keys:
  "map fst (drop_loop cs n m) = filter (\<lambda>k. k \<notin> chunkId ` set (take (nat n) cs)) (map fst m)"
proof (induction cs arbitrary: n m)
  case Nil
  then show ?case by simp
next
  case (Cons c cs)
  show ?case
  proof (cases "n \<le> 0")
    case True
    then show ?thesis by simp
  next
    case False
    then have n: "nat n = Suc (nat (n - 1))" by simp
    have "map fst (AList.delete (chunkId c) m) = filter (\<lambda>k. k \<noteq> chunkId c) (map fst m)"
      by (induction m) auto
    then show ?thesis using False Cons.IH [of "n - 1" "AList.delete (chunkId c) m"]
      by (simp add: n) (rule filter_cong, auto)?
  qed
qed

lemma drop_loop_entries: "set (drop_loop cs n m) \<subseteq> set m"
proof (induction cs arbitrary: n m)
  case Nil
  then show ?case by simp
next
  case (Cons c cs)
  have "set (AList.delete (chunkId c) m) \<subseteq> set m" by (induction m) auto
  then show ?case using Cons.IH [of "n - 1" "AList.delete (chunkId c) m"] by auto
qed

subsection \<open>Counting repeated identifiers\<close>

lemma repeats_mono:
  assumes "mset xs \<subseteq># mset ys"
  shows "length xs + card (set ys) \<le> length ys + card (set xs)"
proof -
  from assms obtain C where C: "mset ys = mset xs + C"
    by (auto simp: mset_subset_eq_exists_conv)
  obtain zs where zs: "mset zs = C" using ex_mset by blast
  have eq: "mset ys = mset (xs @ zs)" by (simp add: C zs)
  have len: "length ys = length xs + length zs"
    using mset_eq_length [OF eq] by simp
  have st: "set ys = set xs \<union> set zs"
    using mset_eq_setD [OF eq] by simp
  have "card (set ys) \<le> card (set xs) + card (set zs)" by (simp add: st card_Un_le)
  also have "\<dots> \<le> card (set xs) + length zs" by (simp add: card_length)
  finally show ?thesis using len by simp
qed

lemma mset_take_subset: "mset (take n xs) \<subseteq># mset xs"
proof -
  have "mset xs = mset (take n xs) + mset (drop n xs)"
    by (metis append_take_drop_id mset_append)
  then show ?thesis by (metis mset_subset_eq_add_left)
qed

subsection \<open>Eviction\<close>

lemma evicted_ids:
  fixes merged :: "RetrievedChunk list"
  defines "byId \<equiv> new_Map (map (\<lambda>m. (chunkId m, m)) merged)"
  shows "map chunkId (map snd (drop_loop cands n byId))
     = filter (\<lambda>k. k \<notin> chunkId ` set (take (nat n) cands)) (map fst byId)"
proof -
  have "set (drop_loop cands n byId) \<subseteq> set (map (\<lambda>m. (chunkId m, m)) merged)"
    using drop_loop_entries [of cands n byId] new_Map_entries [of "map (\<lambda>m. (chunkId m, m)) merged"]
    by (auto simp: byId_def)
  then have "\<forall>e \<in> set (drop_loop cands n byId). chunkId (snd e) = fst e" by auto
  then have "map chunkId (map snd (drop_loop cands n byId)) = map fst (drop_loop cands n byId)"
    by simp
  then show ?thesis by (simp add: drop_loop_keys)
qed

lemma byId_keys:
  "set (map fst (new_Map (map (\<lambda>m. (chunkId m, m)) ms))) = chunkId ` set ms"
proof -
  have "fst ` set (new_Map (map (\<lambda>m. (chunkId m, m)) ms))
      = fst ` set (map (\<lambda>m. (chunkId m, m)) ms)"
    by (rule new_Map_keys)
  also have "\<dots> = chunkId ` set ms" by force
  finally show ?thesis by simp
qed

lemma evicted_size:
  fixes merged :: "RetrievedChunk list"
  assumes over: "budget < int (length merged)"
    and pinned_in: "set pinned \<subseteq> chunkId ` set merged"
    and cands: "cands = sort_key score (filter (\<lambda>m. chunkId m \<notin> set pinned) merged)"
  shows "int (length (filter (\<lambda>k. k \<notin> chunkId ` set (take (nat (int (length merged) - budget)) cands))
            (map fst (new_Map (map (\<lambda>m. (chunkId m, m)) merged)))))
     \<le> max budget (int (length pinned))"
proof -
  let ?byId = "new_Map (map (\<lambda>m. (chunkId m, m)) merged)"
  let ?n = "nat (int (length merged) - budget)"
  let ?T = "take ?n cands"
  let ?D = "chunkId ` set ?T"
  let ?K = "chunkId ` set merged"
  have keys: "set (map fst ?byId) = ?K" by (rule byId_keys)
  have dist: "distinct (map fst ?byId)" by (rule new_Map_distinct)
  have "distinct (filter (\<lambda>k. k \<notin> ?D) (map fst ?byId))"
    using dist by (rule distinct_filter)
  then have "card (set (filter (\<lambda>k. k \<notin> ?D) (map fst ?byId)))
      = length (filter (\<lambda>k. k \<notin> ?D) (map fst ?byId))"
    by (rule distinct_card)
  moreover have "set (filter (\<lambda>k. k \<notin> ?D) (map fst ?byId)) = ?K - ?D"
    unfolding set_filter keys by blast
  ultimately have len: "length (filter (\<lambda>k. k \<notin> ?D) (map fst ?byId)) = card (?K - ?D)"
    by simp
  have Tsub: "set ?T \<subseteq> set cands" by (rule set_take_subset)
  have cset: "set cands = {m \<in> set merged. chunkId m \<notin> set pinned}"
    by (auto simp: cands)
  have DK: "?D \<subseteq> ?K" using Tsub cset by auto
  show ?thesis
  proof (cases "length cands \<le> ?n")
    case True
    then have "?T = cands" by simp
    then have "?K - ?D \<subseteq> set pinned" using cset by auto
    then have "card (?K - ?D) \<le> card (set pinned)" by (simp add: card_mono)
    also have "\<dots> \<le> length pinned" by (rule card_length)
    finally show ?thesis using len by simp
  next
    case False
    then have lT: "length ?T = ?n" by simp
    have "mset ?T \<subseteq># mset cands" by (rule mset_take_subset)
    also have "mset cands \<subseteq># mset merged" by (simp add: cands)
    finally have "mset ?T \<subseteq># mset merged" .
    then have "mset (map chunkId ?T) \<subseteq># mset (map chunkId merged)"
      by (simp add: image_mset_subseteq_mono)
    from repeats_mono [OF this]
    have "?n + card ?K \<le> length merged + card ?D" using lT by simp
    moreover have "card (?K - ?D) = card ?K - card ?D"
      using DK by (simp add: card_Diff_subset finite_subset)
    moreover have "card ?D \<le> card ?K" using DK by (simp add: card_mono)
    ultimately have "int (card (?K - ?D)) \<le> int (length merged) - int ?n" by linarith
    also have "\<dots> = budget" using over by simp
    finally show ?thesis using len by simp
  qed
qed

lemma expand_loaded_over:
  assumes "extras (expansion_of ix opts retrieved) \<noteq> []"
    and "total_of opts < int (length (retrieved @ extras (expansion_of ix opts retrieved)))"
  shows "map chunkId (expand_loaded ix opts retrieved)
     = filter (\<lambda>k. k \<notin> chunkId ` set (take
           (nat (int (length (retrieved @ extras (expansion_of ix opts retrieved))) - total_of opts))
           (sort_key score (filter (\<lambda>m. chunkId m \<notin> set (pinnedIds (expansion_of ix opts retrieved)))
              (retrieved @ extras (expansion_of ix opts retrieved))))))
         (map fst (new_Map (map (\<lambda>m. (chunkId m, m))
            (retrieved @ extras (expansion_of ix opts retrieved)))))"
  using assms evicted_ids [of _ _ "retrieved @ extras (expansion_of ix opts retrieved)"]
  by (simp add: expand_loaded_def Let_def del: map_map map_append)

lemma expand_loaded_under:
  assumes "extras (expansion_of ix opts retrieved) \<noteq> []"
    and "\<not> total_of opts < int (length (retrieved @ extras (expansion_of ix opts retrieved)))"
  shows "expand_loaded ix opts retrieved = retrieved @ extras (expansion_of ix opts retrieved)"
  using assms by (simp add: expand_loaded_def Let_def)

lemma expand_loaded_unchanged:
  "extras (expansion_of ix opts retrieved) = [] \<Longrightarrow> expand_loaded ix opts retrieved = retrieved"
  by (simp add: expand_loaded_def Let_def)

lemma expand_pinned:
  assumes "i \<in> set (pinnedIds (expansion_of ix opts retrieved))"
  shows "i \<in> chunkId ` set (expand_loaded ix opts retrieved)"
proof -
  let ?st = "expansion_of ix opts retrieved"
  let ?merged = "retrieved @ extras ?st"
  note inv = expansion_of_inv [of retrieved ix opts, unfolded expansion_inv_def]
  from inv assms have iK: "i \<in> chunkId ` set ?merged" by auto
  show ?thesis
  proof (cases "extras ?st = []")
    case True
    then show ?thesis using iK by (simp add: expand_loaded_unchanged)
  next
    case False
    show ?thesis
    proof (cases "total_of opts < int (length ?merged)")
      case under: False
      then show ?thesis using iK expand_loaded_under [OF False under] by simp
    next
      case over: True
      let ?cands = "sort_key score (filter (\<lambda>m. chunkId m \<notin> set (pinnedIds ?st)) ?merged)"
      let ?T = "take (nat (int (length ?merged) - total_of opts)) ?cands"
      have "set ?T \<subseteq> set ?cands" by (rule set_take_subset)
      then have "i \<notin> chunkId ` set ?T" using assms by auto
      moreover have "i \<in> set (map fst (new_Map (map (\<lambda>m. (chunkId m, m)) ?merged)))"
        unfolding byId_keys using iK .
      ultimately have "i \<in> set (map chunkId (expand_loaded ix opts retrieved))"
        unfolding expand_loaded_over [OF False over] by simp
      then show ?thesis by simp
    qed
  qed
qed

lemma expand_size:
  assumes "extras (expansion_of ix opts retrieved) \<noteq> []"
  shows "int (length (expand_loaded ix opts retrieved))
     \<le> max (total_of opts) (int (length (pinnedIds (expansion_of ix opts retrieved))))"
proof -
  let ?st = "expansion_of ix opts retrieved"
  let ?merged = "retrieved @ extras ?st"
  note inv = expansion_of_inv [of retrieved ix opts, unfolded expansion_inv_def]
  show ?thesis
  proof (cases "total_of opts < int (length ?merged)")
    case under: False
    then show ?thesis using expand_loaded_under [OF assms under] by simp
  next
    case over: True
    have pin: "set (pinnedIds ?st) \<subseteq> chunkId ` set ?merged" using inv by auto
    have "int (length (expand_loaded ix opts retrieved))
        = int (length (map chunkId (expand_loaded ix opts retrieved)))" by simp
    also have "\<dots> \<le> max (total_of opts) (int (length (pinnedIds ?st)))"
      unfolding expand_loaded_over [OF assms over]
      by (rule evicted_size [OF over pin refl])
    finally show ?thesis .
  qed
qed

lemma expand_distinct:
  assumes "distinct (map chunkId retrieved)"
  shows "distinct (map chunkId (expand_loaded ix opts retrieved))"
proof -
  let ?st = "expansion_of ix opts retrieved"
  let ?merged = "retrieved @ extras ?st"
  note inv = expansion_of_inv [of retrieved ix opts, unfolded expansion_inv_def]
  show ?thesis
  proof (cases "extras ?st = []")
    case True
    then show ?thesis using assms by (simp add: expand_loaded_unchanged)
  next
    case False
    show ?thesis
    proof (cases "total_of opts < int (length ?merged)")
      case under: False
      have "distinct (map chunkId ?merged)" using assms inv by auto
      then show ?thesis using expand_loaded_under [OF False under] by simp
    next
      case over: True
      show ?thesis
        unfolding expand_loaded_over [OF False over]
        by (rule distinct_filter) (rule new_Map_distinct)
    qed
  qed
qed

subsection \<open>Search and header context\<close>

lemma searchDocs_Inr:
  "fst (searchDocs rt p cache params) = Inr res \<Longrightarrow>
   \<exists>ix. fst (loadIndex rt p cache) = Inr ix \<and> res = search_loaded ix params"
  by (cases "fst (loadIndex rt p cache)") (auto simp: searchDocs_result)

text \<open>
  C1, amended: the list \<open>searchDocs\<close> returns has at most \<open>max 1 limit\<close> entries (at most
  \<open>limit\<close> for a limit of at least 1). It is the list of the picks of the first loop,
  which is in descending score order and holds at most 4 chunks per file name, followed
  by the backfilled chunks, which are in descending score order among themselves and are
  present only when the first loop picked fewer than \<open>limit\<close> chunks. Without backfill the
  whole list is thus in descending score order with at most 4 chunks per file name.
\<close>

theorem search_result_amended:
  assumes "fst (searchDocs rt p cache params) = Inr res"
  shows "\<exists>ix extra. fst (loadIndex rt p cache) = Inr ix
     \<and> res = capped_picks ix params @ extra
     \<and> int (length res) \<le> max 1 (limit_of params)
     \<and> descending (capped_picks ix params)
     \<and> (\<forall>f. per_file f (capped_picks ix params) \<le> perFileCap)
     \<and> descending extra
     \<and> (extra \<noteq> [] \<longrightarrow> int (length (capped_picks ix params)) < limit_of params)"
proof -
  from searchDocs_Inr [OF assms] obtain ix where
    ix: "fst (loadIndex rt p cache) = Inr ix"
    and res: "res = diversify (ranked_candidates ix params) (limit_of params)"
    by (auto simp: search_loaded_def)
  let ?out = "ranked_candidates ix params"
  let ?lmt = "limit_of params"
  obtain picked ids where p: "pick_capped ?out ?lmt [] [] [] = (picked, ids)"
    by (cases "pick_capped ?out ?lmt [] [] []") auto
  then have cp: "capped_picks ix params = picked" by (simp add: capped_picks_def)
  have so: "sorted (map (\<lambda>c. - score c) ?out)"
    using ranked_candidates_descending [of ix params] by (simp add: descending_iff)
  have s: "descending picked"
    using pick_capped_sorted [of "\<lambda>c. - score c" "[]" ?out ?lmt "[]" "[]"] so p
    by (simp add: descending_iff)
  have c: "\<forall>f. per_file f picked \<le> perFileCap"
    using pick_capped_cap [of "[]" "[]" _ ?out ?lmt "[]"] p by (simp add: per_file_def)
  have l: "int (length res) \<le> max 1 ?lmt" unfolding res by (rule diversify_length)
  have "\<exists>extra. res = picked @ extra \<and> descending extra
      \<and> (extra \<noteq> [] \<longrightarrow> int (length picked) < ?lmt)"
  proof (cases "int (length picked) < ?lmt")
    case True
    from backfill_append [of "\<lambda>c. - score c" "[]" ?out ?lmt picked ids] so
    obtain extra where "backfill ?out ?lmt picked ids = picked @ extra"
      "sorted (map (\<lambda>c. - score c) extra)" by auto
    then show ?thesis using True by (auto simp: res diversify_def p descending_iff)
  next
    case False
    then have "res = picked @ []" by (simp add: res diversify_def p)
    then show ?thesis by (intro exI [of _ "[]"]) (simp add: descending_def)
  qed
  with ix cp s c l show ?thesis by auto
qed

lemma sample_serialised: "miniSearch sample_bundle = ''index''"
  by (simp add: sample_bundle_def)

lemma sample_load: "loadIndex sample_rt sample_path None = (Inr sample_index, Some sample_index)"
  by (simp add: loadIndex_def sample_rt_def cached_def sample_index_def sample_serialised)

lemma scope_hit_ids: "map chunkId scope_hit = [''fa:p1:s1'']"
  by code_simp

lemma sample_total: "total_of sample_options = 2"
  by (simp add: total_of_def sample_options_def)

lemma sample_search:
  "fst (searchDocs sample_rt sample_path None (sample_params 6)) = Inr sample_result"
  by (simp add: searchDocs_def sample_load sample_result_def)

lemma sample_ranking:
  "ranking sample_result =
     [(''fa:p1:s1'', 10), (''fa:p1:s2'', 9), (''fa:p1:s3'', 8), (''fa:p1:s4'', 7),
      (''fb:p1:s1'', 5), (''fa:p1:s5'', 6)]"
  by code_simp

lemma sample_not_descending: "\<not> descending sample_result"
proof
  assume "descending sample_result"
  then have "sorted (map (\<lambda>c. - snd c) (ranking sample_result))"
    by (simp add: descending_iff ranking_def comp_def)
  then show False by (simp add: sample_ranking)
qed

lemma limit_zero_search:
  "map_sum id ranking (fst (searchDocs sample_rt sample_path None (sample_params 0)))
     = Inr [(''fa:p1:s1'', 10)]"
  by code_simp

text \<open>
  C1, as stated, fails. With five hits in one file and a lower-scored hit in another and
  \<open>limit = 6\<close>, the fifth hit of the first file is backfilled after the hit of the second
  file: the scores end 7, 5, 6. With \<open>limit = 0\<close> the first loop tests the limit only
  after its first pick, and one chunk is returned.
\<close>

theorem search_result_counterexample:
  "fst (searchDocs sample_rt sample_path None (sample_params 6)) = Inr sample_result
   \<and> limit_of (sample_params 6) = 6
   \<and> ranking sample_result =
       [(''fa:p1:s1'', 10), (''fa:p1:s2'', 9), (''fa:p1:s3'', 8), (''fa:p1:s4'', 7),
        (''fb:p1:s1'', 5), (''fa:p1:s5'', 6)]
   \<and> \<not> descending sample_result
   \<and> limit_of (sample_params 0) = 0
   \<and> map_sum id ranking (fst (searchDocs sample_rt sample_path None (sample_params 0)))
       = Inr [(''fa:p1:s1'', 10)]"
  using sample_search sample_ranking sample_not_descending limit_zero_search
  by (simp add: limit_of_def sample_params_def)

lemma sample_capped:
  "ranking (capped_picks sample_index (sample_params 6)) =
     [(''fa:p1:s1'', 10), (''fa:p1:s2'', 9), (''fa:p1:s3'', 8), (''fa:p1:s4'', 7),
      (''fb:p1:s1'', 5)]"
  by code_simp

theorem search_result_amended_witness:
  "fst (searchDocs sample_rt sample_path None (sample_params 6)) = Inr sample_result
   \<and> fst (loadIndex sample_rt sample_path None) = Inr sample_index
   \<and> int (length sample_result) \<le> max 1 (limit_of (sample_params 6))
   \<and> descending (capped_picks sample_index (sample_params 6))
   \<and> per_file ''rules.pdf'' (capped_picks sample_index (sample_params 6)) \<le> perFileCap
   \<and> (\<exists>extra. sample_result = capped_picks sample_index (sample_params 6) @ extra
         \<and> descending extra \<and> extra \<noteq> []
         \<and> int (length (capped_picks sample_index (sample_params 6))) < limit_of (sample_params 6))"
proof -
  from search_result_amended [OF sample_search] obtain ix extra where
    ix: "fst (loadIndex sample_rt sample_path None) = Inr ix"
    and r: "sample_result = capped_picks ix (sample_params 6) @ extra"
    and l: "int (length sample_result) \<le> max 1 (limit_of (sample_params 6))"
    and d: "descending (capped_picks ix (sample_params 6))"
    and c: "\<forall>f. per_file f (capped_picks ix (sample_params 6)) \<le> perFileCap"
    and e: "descending extra"
    and b: "extra \<noteq> [] \<longrightarrow> int (length (capped_picks ix (sample_params 6))) < limit_of (sample_params 6)"
    by blast
  from ix have ix': "ix = sample_index" by (simp add: sample_load)
  have "length (ranking sample_result) \<noteq> length (ranking (capped_picks sample_index (sample_params 6)))"
    unfolding sample_ranking sample_capped by simp
  then have "sample_result \<noteq> capped_picks sample_index (sample_params 6)"
    by (auto simp: ranking_def)
  with r ix' have ne: "extra \<noteq> []" by auto
  from sample_search sample_load l d c r e ne b show ?thesis unfolding ix' by auto
qed

lemma expand_Inr:
  "fst (expandHeaderContext rt p cache retrieved opts) = Inr res \<Longrightarrow>
   res = retrieved \<or> (\<exists>ix. res = expand_loaded ix opts retrieved)"
  by (cases "fst (loadIndex rt p cache)") (auto simp: expand_result split: if_splits)

text \<open>
  C10, amended: the list \<open>searchDocs\<close> returns holds no chunk identifier twice (the cached
  index being one that \<open>loadIndex\<close> built, or none), and the list \<open>expandHeaderContext\<close>
  returns holds no chunk identifier twice whenever its input holds none twice, as every
  result of \<open>searchDocs\<close> does.
\<close>

theorem no_duplicate_ids_amended:
  "(cache_consistent cache \<and> fst (searchDocs rt p cache params) = Inr res
      \<longrightarrow> distinct (map chunkId res))
   \<and> (fst (expandHeaderContext rt p cache retrieved opts) = Inr res'
       \<and> distinct (map chunkId retrieved)
      \<longrightarrow> distinct (map chunkId res'))"
proof (intro conjI impI)
  assume a: "cache_consistent cache \<and> fst (searchDocs rt p cache params) = Inr res"
  then obtain ix where ix: "fst (loadIndex rt p cache) = Inr ix"
    and res: "res = search_loaded ix params"
    using searchDocs_Inr by blast
  from a ix have "consistent ix" using loadIndex_consistent by blast
  then show "distinct (map chunkId res)"
    unfolding res search_loaded_def
    by (intro diversify_distinct ranked_candidates_distinct)
next
  assume a: "fst (expandHeaderContext rt p cache retrieved opts) = Inr res'
       \<and> distinct (map chunkId retrieved)"
  then show "distinct (map chunkId res')"
    using expand_Inr [of rt p cache retrieved opts res'] expand_distinct by auto
qed

lemma brake_pedal_no_header: "isLikelyHeader ''brake pedal'' = False"
  by code_simp

lemma twice_expanded:
  "fst (expandHeaderContext sample_rt sample_path None [brake_pedal_hit, brake_pedal_hit] sample_options)
     = Inr [brake_pedal_hit, brake_pedal_hit]"
proof -
  have t: "chunk_text brake_pedal_hit = ''brake pedal''"
    by (simp add: brake_pedal_hit_def retrieved_of_def rules_chunk_def)
  have "extras (expansion_of sample_index sample_options [brake_pedal_hit, brake_pedal_hit]) = []"
    by (simp add: expansion_of_def t brake_pedal_no_header)
  then show ?thesis
    by (simp add: expandHeaderContext_def sample_load expand_loaded_unchanged)
qed

text \<open>
  C10, as stated, fails for \<open>expandHeaderContext\<close>: an input that holds a chunk twice and
  no header is returned as it is.
\<close>

theorem no_duplicate_ids_counterexample:
  "fst (expandHeaderContext sample_rt sample_path None [brake_pedal_hit, brake_pedal_hit] sample_options)
     = Inr [brake_pedal_hit, brake_pedal_hit]
   \<and> \<not> distinct (map chunkId [brake_pedal_hit, brake_pedal_hit])"
  using twice_expanded by simp

lemma scope_expand:
  "fst (expandHeaderContext sample_rt sample_path None scope_hit sample_options)
     = Inr (expand_loaded sample_index sample_options scope_hit)"
proof -
  have "scope_hit \<noteq> []" using scope_hit_ids by auto
  then show ?thesis by (simp add: expandHeaderContext_def sample_load)
qed

lemma scope_ranking:
  "ranking (expand_loaded sample_index sample_options scope_hit)
     = [(''fa:p1:s1'', 10), (''fa:p1:s2'', 7), (''fa:p1:s3'', 7), (''fa:p1:s4'', 7)]"
  by code_simp

theorem no_duplicate_ids_amended_witness:
  "cache_consistent None
   \<and> fst (searchDocs sample_rt sample_path None (sample_params 6)) = Inr sample_result
   \<and> distinct (map chunkId sample_result)
   \<and> fst (expandHeaderContext sample_rt sample_path None scope_hit sample_options)
       = Inr (expand_loaded sample_index sample_options scope_hit)
   \<and> distinct (map chunkId scope_hit)
   \<and> distinct (map chunkId (expand_loaded sample_index sample_options scope_hit))"
proof -
  have c: "cache_consistent None" by (simp add: cache_consistent_def)
  have d: "distinct (map chunkId scope_hit)" by (simp add: scope_hit_ids)
  note t = no_duplicate_ids_amended [of None sample_rt sample_path "sample_params 6" sample_result
      scope_hit sample_options "expand_loaded sample_index sample_options scope_hit"]
  from t c sample_search have 1: "distinct (map chunkId sample_result)" by blast
  from t scope_expand d
  have 2: "distinct (map chunkId (expand_loaded sample_index sample_options scope_hit))" by blast
  from c sample_search 1 scope_expand d 2 show ?thesis by blast
qed

text \<open>
  C2, amended: the pinned chunks are the headers \<open>expandHeaderContext\<close> processes and the
  extras added under them: every extra is pinned, and so is every header among the
  retrieved chunks (of at most 260 characters, trimmed) as long as the budget for extras
  is not used up. Every pinned chunk is in the list returned. When no extra was added the
  input is returned unchanged, whatever its length; otherwise the list has at most
  \<open>max maxTotal n\<close> entries, where \<open>n\<close> is the number of pinned chunks.
\<close>

theorem expansion_budget_amended:
  assumes "retrieved \<noteq> []" and "fst (loadIndex rt p cache) = Inr ix"
  shows "fst (expandHeaderContext rt p cache retrieved opts) = Inr (expand_loaded ix opts retrieved)
     \<and> (\<forall>e \<in> set (extras (expansion_of ix opts retrieved)).
           chunkId e \<in> set (pinnedIds (expansion_of ix opts retrieved)))
     \<and> (extraCount (expansion_of ix opts retrieved) < extraTotal_of opts
          \<longrightarrow> (\<forall>b \<in> set retrieved.
                 isLikelyHeader (chunk_text b) \<and> length (trim (chunk_text b)) \<le> 260
                 \<longrightarrow> chunkId b \<in> set (pinnedIds (expansion_of ix opts retrieved))))
     \<and> (\<forall>i \<in> set (pinnedIds (expansion_of ix opts retrieved)).
           i \<in> chunkId ` set (expand_loaded ix opts retrieved))
     \<and> (extras (expansion_of ix opts retrieved) = [] \<longrightarrow> expand_loaded ix opts retrieved = retrieved)
     \<and> (extras (expansion_of ix opts retrieved) \<noteq> []
          \<longrightarrow> int (length (expand_loaded ix opts retrieved))
              \<le> max (total_of opts) (int (length (pinnedIds (expansion_of ix opts retrieved)))))"
proof -
  have 1: "fst (expandHeaderContext rt p cache retrieved opts) = Inr (expand_loaded ix opts retrieved)"
    using assms by (simp add: expand_result)
  have 2: "\<forall>e \<in> set (extras (expansion_of ix opts retrieved)).
           chunkId e \<in> set (pinnedIds (expansion_of ix opts retrieved))"
    using expansion_of_inv [of retrieved ix opts] by (auto simp: expansion_inv_def)
  have 3: "extraCount (expansion_of ix opts retrieved) < extraTotal_of opts
          \<longrightarrow> (\<forall>b \<in> set retrieved.
                 isLikelyHeader (chunk_text b) \<and> length (trim (chunk_text b)) \<le> 260
                 \<longrightarrow> chunkId b \<in> set (pinnedIds (expansion_of ix opts retrieved)))"
    unfolding expansion_of_def using collect_extras_headers by blast
  show ?thesis using 1 2 3 expand_pinned expand_loaded_unchanged expand_size by blast
qed

lemma scope_pinned:
  "pinnedIds (expansion_of sample_index sample_options scope_hit)
     = [''fa:p1:s1'', ''fa:p1:s2'', ''fa:p1:s3'', ''fa:p1:s4'']"
  by code_simp

lemma scope_extras:
  "map chunkId (extras (expansion_of sample_index sample_options scope_hit))
     = [''fa:p1:s2'', ''fa:p1:s3'', ''fa:p1:s4'']"
  by code_simp

text \<open>
  C2, as stated, fails: with \<open>maxTotal = 2\<close>, a retrieved header and three chunks after it
  in its file, all four are pinned and all four are returned.
\<close>

theorem expansion_budget_counterexample:
  "fst (expandHeaderContext sample_rt sample_path None scope_hit sample_options)
     = Inr (expand_loaded sample_index sample_options scope_hit)
   \<and> total_of sample_options = 2
   \<and> ranking (expand_loaded sample_index sample_options scope_hit)
       = [(''fa:p1:s1'', 10), (''fa:p1:s2'', 7), (''fa:p1:s3'', 7), (''fa:p1:s4'', 7)]
   \<and> length (expand_loaded sample_index sample_options scope_hit) = 4"
proof -
  have "length (expand_loaded sample_index sample_options scope_hit)
      = length (ranking (expand_loaded sample_index sample_options scope_hit))"
    by (simp add: ranking_def)
  then have "length (expand_loaded sample_index sample_options scope_hit) = 4"
    by (simp add: scope_ranking)
  then show ?thesis using scope_expand scope_ranking sample_total by simp
qed

lemma scope_count: "extraCount (expansion_of sample_index sample_options scope_hit) = 3"
  by code_simp

lemma scope_header:
  "isLikelyHeader ''Scope'' \<and> length (trim ''Scope'') \<le> 260"
  by code_simp

lemma scope_hit_texts: "map chunk_text scope_hit = [''Scope'']"
  by code_simp

theorem expansion_budget_amended_witness:
  "scope_hit \<noteq> []
   \<and> fst (loadIndex sample_rt sample_path None) = Inr sample_index
   \<and> fst (expandHeaderContext sample_rt sample_path None scope_hit sample_options)
       = Inr (expand_loaded sample_index sample_options scope_hit)
   \<and> extraCount (expansion_of sample_index sample_options scope_hit) < extraTotal_of sample_options
   \<and> map chunk_text scope_hit = [''Scope''] \<and> isLikelyHeader ''Scope''
   \<and> length (trim ''Scope'') \<le> 260
   \<and> list_all (\<lambda>b. chunkId b \<in> set (pinnedIds (expansion_of sample_index sample_options scope_hit)))
        scope_hit
   \<and> extras (expansion_of sample_index sample_options scope_hit) \<noteq> []
   \<and> list_all (\<lambda>e. chunkId e \<in> set (pinnedIds (expansion_of sample_index sample_options scope_hit)))
        (extras (expansion_of sample_index sample_options scope_hit))
   \<and> list_all (\<lambda>i. i \<in> chunkId ` set (expand_loaded sample_index sample_options scope_hit))
        [''fa:p1:s1'', ''fa:p1:s2'', ''fa:p1:s3'', ''fa:p1:s4'']
   \<and> int (length (expand_loaded sample_index sample_options scope_hit)) \<le> max 2 4"
proof -
  let ?st = "expansion_of sample_index sample_options scope_hit"
  have h1: "scope_hit \<noteq> []" using scope_hit_ids by auto
  have h2: "fst (loadIndex sample_rt sample_path None) = Inr sample_index"
    by (simp add: sample_load)
  have ne: "extras ?st \<noteq> []"
    using scope_extras by auto
  have "extraTotal_of sample_options = 8"
    by (simp add: extraTotal_of_def sample_options_def)
  then have cnt: "extraCount ?st < extraTotal_of sample_options"
    by (simp add: scope_count)
  have hd: "\<forall>b \<in> set scope_hit.
      isLikelyHeader (chunk_text b) \<and> length (trim (chunk_text b)) \<le> 260"
  proof
    fix b assume "b \<in> set scope_hit"
    then have "chunk_text b \<in> set (map chunk_text scope_hit)" by simp
    then have "chunk_text b = ''Scope''" by (simp add: scope_hit_texts)
    then show "isLikelyHeader (chunk_text b) \<and> length (trim (chunk_text b)) \<le> 260"
      using scope_header by simp
  qed
  note t = expansion_budget_amended [OF h1 h2, of sample_options]
  from t have p: "\<forall>i \<in> set (pinnedIds ?st).
      i \<in> chunkId ` set (expand_loaded sample_index sample_options scope_hit)" by blast
  from t have x: "\<forall>e \<in> set (extras ?st). chunkId e \<in> set (pinnedIds ?st)" by blast
  from t cnt hd have b: "\<forall>b \<in> set scope_hit. chunkId b \<in> set (pinnedIds ?st)" by blast
  from t ne have "int (length (expand_loaded sample_index sample_options scope_hit))
      \<le> max (total_of sample_options) (int (length (pinnedIds ?st)))"
    by blast
  then have s: "int (length (expand_loaded sample_index sample_options scope_hit)) \<le> max 2 4"
    unfolding sample_total scope_pinned by simp
  from p have l: "list_all (\<lambda>i. i \<in> chunkId ` set (expand_loaded sample_index sample_options scope_hit))
        [''fa:p1:s1'', ''fa:p1:s2'', ''fa:p1:s3'', ''fa:p1:s4'']"
    unfolding scope_pinned by (simp add: list_all_iff)
  from x have lx: "list_all (\<lambda>e. chunkId e \<in> set (pinnedIds ?st)) (extras ?st)"
    by (simp add: list_all_iff)
  from b have lb: "list_all (\<lambda>b. chunkId b \<in> set (pinnedIds ?st)) scope_hit"
    by (simp add: list_all_iff)
  from h1 h2 t cnt scope_hit_texts scope_header lb ne lx l s show ?thesis by blast
qed

end
